theory Spec2Isabelle
  imports Main "HOL-Library.Multiset"
begin

section \<open>Data model (repositories/contact.repository.ts, services/identity.service.ts)\<close>

text \<open>
  The \<open>Contact\<close> interface. Ids are the integers of the autoincrement column, dates are
  their millisecond time stamps (\<open>getTime()\<close>), and \<open>string | null\<close> is an option.
  The field \<open>id\<close> is called \<open>cid\<close>, since \<open>id\<close> is the identity function of HOL.
\<close>

datatype LinkPrecedence = Primary | Secondary

record Contact =
  cid :: int
  email :: "string option"
  phoneNumber :: "string option"
  linkedId :: "int option"
  linkPrecedence :: LinkPrecedence
  createdAt :: int
  updatedAt :: int
  deletedAt :: "int option"

text \<open>
  The contact table behind the transaction client \<open>tx\<close>: the rows in their physical
  order, the next value of the id sequence, and a journal that holds a snapshot of the
  rows after every write, so that properties of intermediate states can be stated.
  The writes take the time stamps they set from one clock reading per request, the
  argument \<open>now\<close> of the functions below; no decision of the service reads \<open>updatedAt\<close>.
\<close>

record Store =
  rows :: "Contact list"
  nextId :: int
  journal :: "Contact list list"

record IdentifyInput =
  email_in :: "string option"
  phoneNumber_in :: "string option"

record IdentifyResponse =
  primaryContactId :: int
  emails :: "string list"
  phoneNumbers :: "string list"
  secondaryContactIds :: "int list"

text \<open>
  The faults a request can end with: the validation guard of \<open>identify\<close>, the invariant
  check of \<open>formatResponse\<close>, the \<open>TypeError\<close> of reading \<open>.id\<close> of \<open>undefined\<close>, and
  the store's refusal of a write: an update of a row that does not exist, an insert the
  table does not accept.
\<close>

datatype Fault = ValidationFault | InvariantFault | TypeError | StoreFault

definition emptyStore :: Store where
  "emptyStore = \<lparr>rows = [], nextId = 1, journal = []\<rparr>"

text \<open>JavaScript truthiness of a \<open>string | null | undefined\<close>: null, undefined and the
  empty string are falsy.\<close>

definition truthy :: "string option \<Rightarrow> bool" where
  "truthy v = (case v of None \<Rightarrow> False | Some s \<Rightarrow> s \<noteq> [])"

section \<open>The store's query interface\<close>

text \<open>
  \<open>findMany({where, orderBy: {createdAt: "asc"}})\<close>: the rows that satisfy the condition,
  ascending by \<open>createdAt\<close>; rows with equal time stamps keep their physical order.
  \<open>findFirst({where})\<close>: the first such row, if any.
\<close>

definition findManyAsc :: "(Contact \<Rightarrow> bool) \<Rightarrow> Store \<Rightarrow> Contact list" where
  "findManyAsc wh s = sort_key createdAt (filter wh (rows s))"

definition findFirst :: "(Contact \<Rightarrow> bool) \<Rightarrow> Store \<Rightarrow> Contact option" where
  "findFirst wh s = find wh (rows s)"

definition commitRows :: "Store \<Rightarrow> Contact list \<Rightarrow> Store" where
  "commitRows s rs = s\<lparr>rows := rs, journal := journal s @ [rs]\<rparr>"

section \<open>Queries of the contact repository\<close>

definition findDirectMatches :: "Store \<Rightarrow> string option \<Rightarrow> string option \<Rightarrow> Contact list" where
  "findDirectMatches s em ph =
     (let conditions = (if truthy em then [\<lambda>c. email c = em] else [])
                     @ (if truthy ph then [\<lambda>c. phoneNumber c = ph] else [])
      in if length conditions = 0 then []
         else findManyAsc (\<lambda>c. list_ex (\<lambda>w. w c) conditions \<and> deletedAt c = None) s)"

definition fetchCluster :: "Store \<Rightarrow> int list \<Rightarrow> Contact list" where
  "fetchCluster s primaryIds =
     findManyAsc (\<lambda>c. (cid c \<in> set primaryIds
                        \<or> (case linkedId c of None \<Rightarrow> False | Some l \<Rightarrow> l \<in> set primaryIds))
                      \<and> deletedAt c = None) s"

definition fetchFinalCluster :: "Store \<Rightarrow> int \<Rightarrow> Contact list" where
  "fetchFinalCluster s canonicalPrimaryId =
     findManyAsc (\<lambda>c. (cid c = canonicalPrimaryId \<or> linkedId c = Some canonicalPrimaryId)
                      \<and> deletedAt c = None) s"

definition demoteToSecondary :: "int \<Rightarrow> Store \<Rightarrow> int \<Rightarrow> int \<Rightarrow> Fault + Store" where
  "demoteToSecondary now s demotedId canonicalPrimaryId =
     (if list_ex (\<lambda>c. cid c = demotedId) (rows s)
      then Inr (commitRows s
             (map (\<lambda>c. if cid c = demotedId
                       then c\<lparr>linkedId := Some canonicalPrimaryId, linkPrecedence := Secondary,
                              updatedAt := now\<rparr>
                       else c) (rows s)))
      else Inl StoreFault)"

definition reparentSecondaries :: "int \<Rightarrow> Store \<Rightarrow> int \<Rightarrow> int \<Rightarrow> Store" where
  "reparentSecondaries now s demotedId canonicalPrimaryId =
     commitRows s
       (map (\<lambda>c. if linkedId c = Some demotedId \<and> deletedAt c = None
                 then c\<lparr>linkedId := Some canonicalPrimaryId, updatedAt := now\<rparr>
                 else c) (rows s))"

text \<open>
  Modelled from the spec: the contact table itself, whose declaration is not among the
  sources; the README gives it as \<open>id Int @id @default(autoincrement())\<close>,
  \<open>email String? @db.VarChar(255)\<close> and \<open>phoneNumber String? @db.VarChar(20)\<close>. An insert
  is refused, the store fault of section 7 of the spec, when a string is longer than its
  column, when the sequence has left the range of \<open>Int\<close>, or when the id the sequence gives
  is already the key of a row (a sequence that was reset). Strings are lists of ASCII
  characters, so their length is the number of characters the column counts. The foreign
  key of \<open>linkedId\<close> is left out: the service writes only ids of rows it has fetched in the
  same transaction. A refused insert leaves the sequence of the model where it was; the
  value a real sequence spends on it shows in no row and in no answer.
\<close>

definition fitsColumn :: "nat \<Rightarrow> string option \<Rightarrow> bool" where
  "fitsColumn n v = (case v of None \<Rightarrow> True | Some x \<Rightarrow> length x \<le> n)"

definition insertable :: "Store \<Rightarrow> string option \<Rightarrow> string option \<Rightarrow> bool" where
  "insertable s em ph =
     (fitsColumn 255 em \<and> fitsColumn 20 ph \<and> nextId s \<le> 2147483647
      \<and> \<not> list_ex (\<lambda>c. cid c = nextId s) (rows s))"

definition createContact ::
  "int \<Rightarrow> Store \<Rightarrow> string option \<Rightarrow> string option \<Rightarrow> int option \<Rightarrow> LinkPrecedence
     \<Rightarrow> Fault + Contact \<times> Store" where
  "createContact now s em ph lid prec =
     (let c = \<lparr>cid = nextId s, email = em, phoneNumber = ph, linkedId = lid,
               linkPrecedence = prec, createdAt = now, updatedAt = now, deletedAt = None\<rparr>
      in if insertable s em ph
         then Inr (c, (commitRows s (rows s @ [c]))\<lparr>nextId := nextId s + 1\<rparr>)
         else Inl StoreFault)"

definition findExactMatch :: "Store \<Rightarrow> string option \<Rightarrow> string option \<Rightarrow> Contact option" where
  "findExactMatch s em ph =
     (if truthy em \<and> truthy ph
      then findFirst (\<lambda>c. deletedAt c = None \<and> email c = em \<and> phoneNumber c = ph) s
      else if truthy em then findFirst (\<lambda>c. deletedAt c = None \<and> email c = em) s
      else if truthy ph then findFirst (\<lambda>c. deletedAt c = None \<and> phoneNumber c = ph) s
      else None)"

section \<open>The identity service\<close>

text \<open>\<open>addEmail\<close> and \<open>addPhone\<close>: the value is pushed unless it is falsy or already seen.
  The set of seen values and the output array always hold the same values, so one list
  stands for both.\<close>

definition addValue :: "string list \<Rightarrow> string option \<Rightarrow> string list" where
  "addValue acc v =
     (case v of None \<Rightarrow> acc
      | Some x \<Rightarrow> if x \<noteq> [] \<and> x \<notin> set acc then acc @ [x] else acc)"

definition formatResponse :: "Contact list \<Rightarrow> Fault + IdentifyResponse" where
  "formatResponse cluster =
     (case find (\<lambda>c. linkPrecedence c = Primary) cluster of
        None \<Rightarrow> Inl InvariantFault
      | Some primary \<Rightarrow>
          (let secondaries = sort_key cid (filter (\<lambda>c. linkPrecedence c = Secondary) cluster);
               emails = foldl addValue (addValue [] (email primary)) (map email secondaries);
               phoneNumbers = foldl addValue (addValue [] (phoneNumber primary))
                                (map phoneNumber secondaries)
           in Inr \<lparr>primaryContactId = cid primary, emails = emails,
                   phoneNumbers = phoneNumbers,
                   secondaryContactIds = map cid secondaries\<rparr>))"

text \<open>Step 4A: the ids are added to a \<open>Set\<close>, which keeps the order of first insertion.\<close>

definition setAdd :: "int list \<Rightarrow> int \<Rightarrow> int list" where
  "setAdd ids x = (if x \<in> set ids then ids else ids @ [x])"

fun collectPrimaryIds :: "int list \<Rightarrow> Contact list \<Rightarrow> int list" where
  "collectPrimaryIds primaryIdSet [] = primaryIdSet"
| "collectPrimaryIds primaryIdSet (c # cs) =
     collectPrimaryIds
       (if linkPrecedence c = Primary then setAdd primaryIdSet (cid c)
        else (case linkedId c of Some l \<Rightarrow> setAdd primaryIdSet l | None \<Rightarrow> primaryIdSet))
       cs"

text \<open>Step 4C: filter the primaries, sort them by \<open>createdAt\<close> (the sort of an array is
  stable), take element 0, which is \<open>undefined\<close> for an empty array.\<close>

definition primariesOf :: "Contact list \<Rightarrow> Contact list" where
  "primariesOf cluster = sort_key createdAt (filter (\<lambda>c. linkPrecedence c = Primary) cluster)"

definition electPrimary :: "Contact list \<Rightarrow> Contact option" where
  "electPrimary cluster = (case primariesOf cluster of [] \<Rightarrow> None | p # _ \<Rightarrow> Some p)"

text \<open>Step 4D: the loop over \<open>primariesInCluster.slice(1)\<close>. Its body reads
  \<open>canonicalPrimary.id\<close>, a \<open>TypeError\<close> when there is no canonical primary.\<close>

fun demoteExtras :: "int \<Rightarrow> Store \<Rightarrow> Contact list \<Rightarrow> Contact option \<Rightarrow> Fault option \<times> Store" where
  "demoteExtras now s [] canonicalPrimary = (None, s)"
| "demoteExtras now s (demoted # rest) canonicalPrimary =
     (case canonicalPrimary of
        None \<Rightarrow> (Some TypeError, s)
      | Some cp \<Rightarrow>
          (let s1 = reparentSecondaries now s (cid demoted) (cid cp)
           in case demoteToSecondary now s1 (cid demoted) (cid cp) of
                Inl e \<Rightarrow> (Some e, s1)
              | Inr s2 \<Rightarrow> demoteExtras now s2 rest canonicalPrimary))"

text \<open>The body of the transaction. It returns the store as the body left it, also when
  it ends with a fault.\<close>

definition identifyTx :: "int \<Rightarrow> IdentifyInput \<Rightarrow> Store \<Rightarrow> (Fault + IdentifyResponse) \<times> Store" where
  "identifyTx now inp s =
     (let em = email_in inp; ph = phoneNumber_in inp;
          directMatches = findDirectMatches s em ph
      in if length directMatches = 0
         then (case createContact now s em ph None Primary of
                 Inl e \<Rightarrow> (Inl e, s)
               | Inr (newContact, s1) \<Rightarrow> (formatResponse [newContact], s1))
         else
          (let primaryIdSet = collectPrimaryIds [] directMatches;
               cluster = fetchCluster s primaryIdSet;
               primariesInCluster = primariesOf cluster;
               canonicalPrimary = electPrimary cluster
           in case demoteExtras now s (drop 1 primariesInCluster) canonicalPrimary of
                (Some e, s1) \<Rightarrow> (Inl e, s1)
              | (None, s1) \<Rightarrow>
                  (let exactMatch = findExactMatch s1 em ph
                   in case canonicalPrimary of
                        None \<Rightarrow> (Inl TypeError, s1)
                      | Some cp \<Rightarrow>
                          if exactMatch \<noteq> None
                          then (formatResponse (fetchFinalCluster s1 (cid cp)), s1)
                          else (case createContact now s1 em ph (Some (cid cp)) Secondary of
                                  Inl e \<Rightarrow> (Inl e, s1)
                                | Inr (newContact, s2) \<Rightarrow>
                                    (formatResponse (fetchFinalCluster s2 (cid cp)), s2)))))"

text \<open>\<open>prisma.$transaction\<close>: the writes of a body that throws are rolled back.\<close>

definition transaction ::
  "(Store \<Rightarrow> (Fault + IdentifyResponse) \<times> Store) \<Rightarrow> Store \<Rightarrow> (Fault + IdentifyResponse) \<times> Store" where
  "transaction body s = (case body s of (Inl e, _) \<Rightarrow> (Inl e, s) | (Inr r, s') \<Rightarrow> (Inr r, s'))"

definition identify :: "int \<Rightarrow> Store \<Rightarrow> IdentifyInput \<Rightarrow> (Fault + IdentifyResponse) \<times> Store" where
  "identify now s inp =
     (if \<not> truthy (email_in inp) \<and> \<not> truthy (phoneNumber_in inp)
      then (Inl ValidationFault, s)
      else transaction (identifyTx now inp) s)"

section \<open>Specification predicates\<close>

text \<open>A row is a direct match of a request when it is not deleted and carries the given
  email or the given phone number; a field that is falsy is not given.\<close>

definition directMatch :: "string option \<Rightarrow> string option \<Rightarrow> Contact \<Rightarrow> bool" where
  "directMatch em ph c =
     (deletedAt c = None \<and> ((truthy em \<and> email c = em) \<or> (truthy ph \<and> phoneNumber c = ph)))"

text \<open>The spec's description of the value lists of a response: the values that are
  present (neither null nor empty), de-duplicated in order, the first occurrence kept.\<close>

definition presentValues :: "string option list \<Rightarrow> string list" where
  "presentValues vs =
     concat (map (\<lambda>v. case v of None \<Rightarrow> [] | Some x \<Rightarrow> if x = [] then [] else [x]) vs)"

fun dedupFirst :: "'a list \<Rightarrow> 'a list" where
  "dedupFirst [] = []"
| "dedupFirst (x # xs) = x # dedupFirst (filter (\<lambda>y. y \<noteq> x) xs)"

text \<open>A row that was never updated or deleted, for the concrete instances below.\<close>

definition contact ::
  "int \<Rightarrow> string option \<Rightarrow> string option \<Rightarrow> int option \<Rightarrow> LinkPrecedence \<Rightarrow> int \<Rightarrow> Contact" where
  "contact i em ph l prec t =
     \<lparr>cid = i, email = em, phoneNumber = ph, linkedId = l, linkPrecedence = prec,
      createdAt = t, updatedAt = t, deletedAt = None\<rparr>"

text \<open>
  The flat invariant, over the rows that are not deleted: every secondary links to the id
  of a row that is a primary. \<open>noChain\<close> says the same from the other side: no secondary
  links to the id of a row that is a secondary. \<open>uniqueIds\<close> is the key constraint of the
  table together with the id sequence being ahead of every id in use.
\<close>

definition flat :: "Contact list \<Rightarrow> bool" where
  "flat rs = (\<forall>c \<in> set rs. deletedAt c = None \<and> linkPrecedence c = Secondary \<longrightarrow>
                (\<exists>p \<in> set rs. linkedId c = Some (cid p) \<and> linkPrecedence p = Primary))"

definition noChain :: "Contact list \<Rightarrow> bool" where
  "noChain rs = (\<forall>c \<in> set rs. \<forall>q \<in> set rs.
                   deletedAt c = None \<and> linkPrecedence c = Secondary \<and> linkedId c = Some (cid q)
                     \<longrightarrow> linkPrecedence q = Primary)"

definition uniqueIds :: "Store \<Rightarrow> bool" where
  "uniqueIds s = (distinct (map cid (rows s)) \<and> (\<forall>c \<in> set (rows s). cid c < nextId s))"

definition hasPrimary :: "Contact list \<Rightarrow> int \<Rightarrow> bool" where
  "hasPrimary rs c = (\<exists>p \<in> set rs. cid p = c \<and> linkPrecedence p = Primary)"

text \<open>
  The writes of the merge as section 4.4 of the spec words them. Step 1 re-parents: every
  non-deleted row whose \<open>linkedId\<close> is the demoted id gets the canonical id. Step 2 demotes:
  the row with the demoted id becomes a secondary of the canonical id. \<open>mergeTrace\<close> lists
  the table after each write when the demoted ids are taken in the given order, step 1
  before step 2 for each of them.
\<close>

definition reparented :: "int \<Rightarrow> int \<Rightarrow> int \<Rightarrow> Contact list \<Rightarrow> Contact list" where
  "reparented now d c rs =
     map (\<lambda>r. if linkedId r = Some d \<and> deletedAt r = None
               then r\<lparr>linkedId := Some c, updatedAt := now\<rparr> else r) rs"

definition demoted :: "int \<Rightarrow> int \<Rightarrow> int \<Rightarrow> Contact list \<Rightarrow> Contact list" where
  "demoted now d c rs =
     map (\<lambda>r. if cid r = d
               then r\<lparr>linkedId := Some c, linkPrecedence := Secondary, updatedAt := now\<rparr>
               else r) rs"

fun mergeTrace :: "int \<Rightarrow> Contact list \<Rightarrow> int list \<Rightarrow> int \<Rightarrow> Contact list list" where
  "mergeTrace now rs [] c = []"
| "mergeTrace now rs (d # ds) c =
     reparented now d c rs # demoted now d c (reparented now d c rs)
       # mergeTrace now (demoted now d c (reparented now d c rs)) ds c"

text \<open>
  Flatness inside the cluster that is being merged, whose primaries have the ids \<open>K\<close>:
  every non-deleted secondary that links into \<open>K\<close> links to a row of \<open>K\<close> that is, at this
  moment, a primary and not deleted.
\<close>

definition clusterFlat :: "int set \<Rightarrow> Contact list \<Rightarrow> bool" where
  "clusterFlat K rs =
     (\<forall>r \<in> set rs. deletedAt r = None \<and> linkPrecedence r = Secondary \<longrightarrow>
        (\<forall>k \<in> K. linkedId r = Some k \<longrightarrow>
           (\<exists>p \<in> set rs. cid p = k \<and> linkPrecedence p = Primary \<and> deletedAt p = None)))"

definition livePrimary :: "Contact list \<Rightarrow> int \<Rightarrow> bool" where
  "livePrimary rs c =
     (\<exists>p \<in> set rs. cid p = c \<and> linkPrecedence p = Primary \<and> deletedAt p = None)"

text \<open>Two independent primaries, the newer one with a secondary of its own.\<close>

definition mergeStore :: Store where
  "mergeStore =
     \<lparr>rows = [contact 1 (Some ''e1'') (Some ''p1'') None Primary 100,
              contact 2 (Some ''e2'') (Some ''p2'') None Primary 200,
              contact 3 (Some ''e3'') (Some ''p2'') (Some 2) Secondary 250],
      nextId = 4, journal = []\<rparr>"

text \<open>The net effect of the demotion loop on one row, for the set \<open>D\<close> of demoted ids
  and the canonical id \<open>c\<close>.\<close>

definition mergedRow :: "int \<Rightarrow> int set \<Rightarrow> int \<Rightarrow> Contact \<Rightarrow> Contact" where
  "mergedRow now D c r =
     (if cid r \<in> D
      then r\<lparr>linkedId := Some c, linkPrecedence := Secondary, updatedAt := now\<rparr>
      else if deletedAt r = None \<and> (\<exists>d \<in> D. linkedId r = Some d)
      then r\<lparr>linkedId := Some c, updatedAt := now\<rparr>
      else r)"

text \<open>Section 4.2 of the spec: a seed that is a primary refers to its own id, a seed that
  is a secondary to its \<open>linkedId\<close>.\<close>

definition primaryIdOf :: "Contact \<Rightarrow> int option" where
  "primaryIdOf c = (if linkPrecedence c = Primary then Some (cid c) else linkedId c)"

text \<open>
  The cluster of the spec's glossary: the non-deleted rows connected, through any number
  of steps, by an equal email or an equal phone number. \<open>everyClusterHasPrimary\<close> is the
  hypothesis of the claim as it is written: the cluster of every non-deleted row holds a
  primary.
\<close>

definition sameIdentity :: "Contact \<Rightarrow> Contact \<Rightarrow> bool" where
  "sameIdentity a b =
     ((email a \<noteq> None \<and> email a = email b)
      \<or> (phoneNumber a \<noteq> None \<and> phoneNumber a = phoneNumber b))"

definition connects :: "Store \<Rightarrow> (Contact \<times> Contact) set" where
  "connects s =
     {(a, b). a \<in> set (rows s) \<and> b \<in> set (rows s) \<and> deletedAt a = None
        \<and> deletedAt b = None \<and> sameIdentity a b}"

definition clusterOf :: "Store \<Rightarrow> Contact \<Rightarrow> Contact set" where
  "clusterOf s m = {r. (m, r) \<in> (connects s)\<^sup>*}"

definition everyClusterHasPrimary :: "Store \<Rightarrow> bool" where
  "everyClusterHasPrimary s =
     (\<forall>m \<in> set (rows s). deletedAt m = None \<longrightarrow>
        (\<exists>p \<in> clusterOf s m. linkPrecedence p = Primary \<and> deletedAt p = None))"

text \<open>The hypothesis the election needs instead, invariant 2 of the data model with the
  tombstone taken into account: every non-deleted secondary links to the id of a primary
  that is not deleted.\<close>

definition everySecondaryHasLivePrimary :: "Store \<Rightarrow> bool" where
  "everySecondaryHasLivePrimary s =
     (\<forall>m \<in> set (rows s). deletedAt m = None \<and> linkPrecedence m = Secondary \<longrightarrow>
        (\<exists>p \<in> set (rows s). linkedId m = Some (cid p) \<and> linkPrecedence p = Primary
                              \<and> deletedAt p = None))"

text \<open>A secondary that shares its email with a primary but links to another primary,
  which has been deleted.\<close>

definition strayStore :: Store where
  "strayStore =
     \<lparr>rows = [contact 1 (Some ''a@x.com'') (Some ''1'') None Primary 100,
              (contact 2 (Some ''b@x.com'') (Some ''2'') None Primary 200)\<lparr>deletedAt := Some 400\<rparr>,
              contact 3 (Some ''a@x.com'') (Some ''2'') (Some 2) Secondary 300],
      nextId = 4, journal = []\<rparr>"

text \<open>A secondary whose primary has been deleted.\<close>

definition orphanStore :: Store where
  "orphanStore =
     \<lparr>rows = [(contact 1 (Some ''a@x.com'') (Some ''1'') None Primary 100)\<lparr>deletedAt := Some 250\<rparr>,
              contact 2 (Some ''b@x.com'') (Some ''1'') (Some 1) Secondary 200],
      nextId = 3, journal = []\<rparr>"

text \<open>
  The link columns as the data model has them: a primary has no \<open>linkedId\<close>, and a
  \<open>linkedId\<close> is an id the sequence has already given out.
\<close>

definition linksOk :: "Store \<Rightarrow> bool" where
  "linksOk s =
     ((\<forall>r \<in> set (rows s). linkPrecedence r = Primary \<longrightarrow> linkedId r = None)
      \<and> (\<forall>r \<in> set (rows s). \<forall>l. linkedId r = Some l \<longrightarrow> l < nextId s))"

text \<open>The row the idempotency check looks for: not deleted, and equal to the request in
  both fields when both are given, in the one given field otherwise.\<close>

definition exactMatch :: "string option \<Rightarrow> string option \<Rightarrow> Contact \<Rightarrow> bool" where
  "exactMatch em ph c =
     (deletedAt c = None
      \<and> (if truthy em \<and> truthy ph then email c = em \<and> phoneNumber c = ph
         else if truthy em then email c = em
         else truthy ph \<and> phoneNumber c = ph))"

text \<open>The same request issued once more at each of the given times.\<close>

fun identifyRepeat ::
  "int list \<Rightarrow> Store \<Rightarrow> IdentifyInput \<Rightarrow> (Fault + IdentifyResponse) list \<times> Store" where
  "identifyRepeat [] s inp = ([], s)"
| "identifyRepeat (now # nows) s inp =
     (let (res, s1) = identify now s inp;
          (ress, s2) = identifyRepeat nows s1 inp
      in (res # ress, s2))"

lemmas eval_defs = identify_def transaction_def identifyTx_def findDirectMatches_def
  findManyAsc_def findFirst_def createContact_def commitRows_def formatResponse_def
  addValue_def fetchCluster_def fetchFinalCluster_def findExactMatch_def electPrimary_def
  primariesOf_def reparentSecondaries_def demoteToSecondary_def setAdd_def truthy_def
  emptyStore_def contact_def insertable_def fitsColumn_def Let_def

section \<open>The store's queries\<close>

lemma sort_key_Nil_iff [simp]: "sort_key f xs = [] \<longleftrightarrow> xs = []"
  using length_sort [of f xs] by (metis length_0_conv)

lemma set_findManyAsc [simp]: "set (findManyAsc wh s) = {c \<in> set (rows s). wh c}"
  by (auto simp: findManyAsc_def)

lemma mset_findManyAsc: "mset (findManyAsc wh s) = filter_mset wh (mset (rows s))"
  by (simp add: findManyAsc_def)

lemma sorted_findManyAsc: "sorted (map createdAt (findManyAsc wh s))"
  by (simp add: findManyAsc_def)

lemma findDirectMatches_eq:
  "findDirectMatches s em ph = findManyAsc (directMatch em ph) s"
proof -
  have "filter (directMatch em ph) (rows s) = []" if "\<not> truthy em" "\<not> truthy ph"
    using that by (simp add: directMatch_def)
  then show ?thesis
    by (auto simp: findDirectMatches_def findManyAsc_def directMatch_def Let_def
             intro!: arg_cong [where f = "sort_key createdAt"] filter_cong)
qed

text \<open>
  Claim C9. The Direct Match Finder returns exactly the non-deleted rows that carry a
  given email or a given phone number (an OR over the fields that are present), each as
  often as the table holds it, in ascending order of \<open>createdAt\<close>. The empty result that
  does not depend on the table, the early return, occurs exactly when both fields are
  absent. With a field present the result is empty exactly when no non-deleted row
  matches.
\<close>

theorem findDirectMatches_spec:
  "mset (findDirectMatches s em ph) = filter_mset (directMatch em ph) (mset (rows s))
   \<and> sorted (map createdAt (findDirectMatches s em ph))
   \<and> ((\<forall>s'. findDirectMatches s' em ph = []) \<longleftrightarrow> \<not> truthy em \<and> \<not> truthy ph)
   \<and> (findDirectMatches s em ph = [] \<longleftrightarrow> (\<forall>c \<in> set (rows s). \<not> directMatch em ph c))"
proof -
  have empty_iff: "findDirectMatches s' em ph = [] \<longleftrightarrow> (\<forall>c \<in> set (rows s'). \<not> directMatch em ph c)"
    for s'
    by (simp add: findDirectMatches_eq findManyAsc_def filter_empty_conv)
  have absent: "\<forall>s'. findDirectMatches s' em ph = []" if "\<not> truthy em \<and> \<not> truthy ph"
    using that by (simp add: findDirectMatches_def)
  have present: "\<not> truthy em \<and> \<not> truthy ph" if all: "\<forall>s'. findDirectMatches s' em ph = []"
  proof -
    from all have "findDirectMatches \<lparr>rows = [contact 1 em ph None Primary 0], nextId = 2,
        journal = []\<rparr> em ph = []" by blast
    then have "\<not> directMatch em ph (contact 1 em ph None Primary 0)"
      unfolding empty_iff by simp
    then show ?thesis by (simp add: directMatch_def contact_def)
  qed
  have "(\<forall>s'. findDirectMatches s' em ph = []) \<longleftrightarrow> \<not> truthy em \<and> \<not> truthy ph"
    using absent present by blast
  with empty_iff [of s] show ?thesis
    by (simp add: findDirectMatches_eq mset_findManyAsc sorted_findManyAsc)
qed

theorem findDirectMatches_spec_witness:
  "findDirectMatches
     \<lparr>rows = [contact 2 (Some ''b@x.com'') (Some ''1'') (Some 1) Secondary 200,
              contact 1 (Some ''a@x.com'') (Some ''1'') None Primary 100,
              contact 3 (Some ''c@x.com'') (Some ''3'') None Primary 300],
      nextId = 4, journal = []\<rparr> (Some ''c@x.com'') (Some ''1'')
     = [contact 1 (Some ''a@x.com'') (Some ''1'') None Primary 100,
        contact 2 (Some ''b@x.com'') (Some ''1'') (Some 1) Secondary 200,
        contact 3 (Some ''c@x.com'') (Some ''3'') None Primary 300]
   \<and> \<not> truthy None \<and> \<not> truthy (Some '''')
   \<and> findDirectMatches emptyStore None (Some '''') = []"
proof -
  have a: "findDirectMatches
     \<lparr>rows = [contact 2 (Some ''b@x.com'') (Some ''1'') (Some 1) Secondary 200,
              contact 1 (Some ''a@x.com'') (Some ''1'') None Primary 100,
              contact 3 (Some ''c@x.com'') (Some ''3'') None Primary 300],
      nextId = 4, journal = []\<rparr> (Some ''c@x.com'') (Some ''1'')
     = [contact 1 (Some ''a@x.com'') (Some ''1'') None Primary 100,
        contact 2 (Some ''b@x.com'') (Some ''1'') (Some 1) Secondary 200,
        contact 3 (Some ''c@x.com'') (Some ''3'') None Primary 300]"
    by (simp add: eval_defs)
  have b: "\<not> truthy None \<and> \<not> truthy (Some '''')"
    by (simp add: truthy_def)
  from b findDirectMatches_spec [of s "None" "Some ''''" for s]
  have "findDirectMatches emptyStore None (Some '''') = []" by blast
  with a b show ?thesis by blast
qed

section \<open>Election of the canonical primary\<close>

lemma primariesOf_set [simp]:
  "set (primariesOf cluster) = {c \<in> set cluster. linkPrecedence c = Primary}"
  by (auto simp: primariesOf_def)

lemma electPrimary_None_iff:
  "electPrimary cluster = None \<longleftrightarrow> (\<forall>c \<in> set cluster. linkPrecedence c \<noteq> Primary)"
proof -
  have "electPrimary cluster = None \<longleftrightarrow> primariesOf cluster = []"
    by (simp add: electPrimary_def split: list.splits)
  also have "\<dots> \<longleftrightarrow> (\<forall>c \<in> set cluster. linkPrecedence c \<noteq> Primary)"
    by (simp add: primariesOf_def filter_empty_conv)
  finally show ?thesis .
qed

lemma electPrimary_Some:
  assumes "electPrimary cluster = Some p"
  shows "p \<in> set cluster" "linkPrecedence p = Primary"
    "\<And>q. q \<in> set cluster \<Longrightarrow> linkPrecedence q = Primary \<Longrightarrow> createdAt p \<le> createdAt q"
proof -
  from assms obtain ps where ps: "primariesOf cluster = p # ps"
    by (auto simp: electPrimary_def split: list.splits)
  then have "p \<in> set (primariesOf cluster)" by simp
  then show "p \<in> set cluster" "linkPrecedence p = Primary" by simp_all
  fix q assume "q \<in> set cluster" "linkPrecedence q = Primary"
  then have "q \<in> set (primariesOf cluster)" by simp
  moreover have "sorted (map createdAt (primariesOf cluster))"
    by (simp add: primariesOf_def)
  ultimately show "createdAt p \<le> createdAt q"
    unfolding ps by auto
qed

lemma electPrimary_strict:
  assumes "electPrimary cluster = Some p"
    and "distinct (map createdAt (filter (\<lambda>c. linkPrecedence c = Primary) cluster))"
    and "q \<in> set cluster" "linkPrecedence q = Primary" "q \<noteq> p"
  shows "createdAt p < createdAt q"
proof -
  have "inj_on createdAt (set (filter (\<lambda>c. linkPrecedence c = Primary) cluster))"
    using assms(2) by (simp add: distinct_map)
  moreover have "p \<in> set (filter (\<lambda>c. linkPrecedence c = Primary) cluster)"
    using electPrimary_Some(1,2) [OF assms(1)] by simp
  moreover have "q \<in> set (filter (\<lambda>c. linkPrecedence c = Primary) cluster)"
    using assms(3,4) by simp
  ultimately have "createdAt p \<noteq> createdAt q"
    using assms(5) by (auto dest: inj_onD)
  with electPrimary_Some(3) [OF assms(1,3,4)] show ?thesis by simp
qed

lemma electPrimary_oldest:
  assumes "a \<in> set cluster" "linkPrecedence a = Primary"
    and "\<forall>q \<in> set cluster. linkPrecedence q = Primary \<and> q \<noteq> a \<longrightarrow> createdAt a < createdAt q"
  shows "electPrimary cluster = Some a"
proof (cases "electPrimary cluster")
  case None
  with assms(1,2) show ?thesis by (auto simp: electPrimary_None_iff)
next
  case (Some p)
  have "createdAt p \<le> createdAt a"
    using electPrimary_Some(3) [OF Some assms(1,2)] .
  moreover have "p \<noteq> a \<Longrightarrow> createdAt a < createdAt p"
    using assms(3) electPrimary_Some(1,2) [OF Some] by blast
  ultimately have "p = a" by force
  with Some show ?thesis by simp
qed

text \<open>
  Claim C2. The canonical primary is the first element of the cluster's primaries sorted
  ascending by \<open>createdAt\<close>; there is none exactly when the cluster has no primary. The
  elected contact is a primary of the cluster that no primary of the cluster precedes in
  time, and when the primaries have pairwise distinct \<open>createdAt\<close> values every other
  primary is strictly newer: it is the primary with the minimal \<open>createdAt\<close>.
\<close>

theorem electPrimary_spec:
  "electPrimary cluster =
     (case sort_key createdAt (filter (\<lambda>c. linkPrecedence c = Primary) cluster) of
        [] \<Rightarrow> None | p # _ \<Rightarrow> Some p)
   \<and> (electPrimary cluster = None \<longleftrightarrow> (\<forall>c \<in> set cluster. linkPrecedence c \<noteq> Primary))
   \<and> (\<forall>p. electPrimary cluster = Some p \<longrightarrow>
         p \<in> set cluster \<and> linkPrecedence p = Primary
         \<and> (\<forall>q \<in> set cluster. linkPrecedence q = Primary \<longrightarrow> createdAt p \<le> createdAt q)
         \<and> (distinct (map createdAt (filter (\<lambda>c. linkPrecedence c = Primary) cluster)) \<longrightarrow>
              (\<forall>q \<in> set cluster. linkPrecedence q = Primary \<and> q \<noteq> p \<longrightarrow>
                 createdAt p < createdAt q)))"
  using electPrimary_None_iff [of cluster]
  by (auto simp: electPrimary_def primariesOf_def [symmetric]
           dest: electPrimary_Some [unfolded electPrimary_def]
                 electPrimary_strict [unfolded electPrimary_def])

theorem electPrimary_spec_witness:
  "electPrimary [contact 2 (Some ''b@x.com'') (Some ''2'') None Primary 200,
                 contact 3 (Some ''c@x.com'') (Some ''1'') (Some 1) Secondary 50,
                 contact 1 (Some ''a@x.com'') (Some ''1'') None Primary 100]
     = Some (contact 1 (Some ''a@x.com'') (Some ''1'') None Primary 100)
   \<and> distinct (map createdAt (filter (\<lambda>c. linkPrecedence c = Primary)
                [contact 2 (Some ''b@x.com'') (Some ''2'') None Primary 200,
                 contact 3 (Some ''c@x.com'') (Some ''1'') (Some 1) Secondary 50,
                 contact 1 (Some ''a@x.com'') (Some ''1'') None Primary 100]))
   \<and> createdAt (contact 1 (Some ''a@x.com'') (Some ''1'') None Primary 100)
       < createdAt (contact 2 (Some ''b@x.com'') (Some ''2'') None Primary 200)"
proof -
  have e: "electPrimary [contact 2 (Some ''b@x.com'') (Some ''2'') None Primary 200,
                 contact 3 (Some ''c@x.com'') (Some ''1'') (Some 1) Secondary 50,
                 contact 1 (Some ''a@x.com'') (Some ''1'') None Primary 100]
     = Some (contact 1 (Some ''a@x.com'') (Some ''1'') None Primary 100)"
    by (simp add: eval_defs)
  have d: "distinct (map createdAt (filter (\<lambda>c. linkPrecedence c = Primary)
                [contact 2 (Some ''b@x.com'') (Some ''2'') None Primary 200,
                 contact 3 (Some ''c@x.com'') (Some ''1'') (Some 1) Secondary 50,
                 contact 1 (Some ''a@x.com'') (Some ''1'') None Primary 100]))"
    by (simp add: contact_def)
  have m: "contact 2 (Some ''b@x.com'') (Some ''2'') None Primary 200
      \<in> set [contact 2 (Some ''b@x.com'') (Some ''2'') None Primary 200,
                 contact 3 (Some ''c@x.com'') (Some ''1'') (Some 1) Secondary 50,
                 contact 1 (Some ''a@x.com'') (Some ''1'') None Primary 100]"
    by simp
  have p: "linkPrecedence (contact 2 (Some ''b@x.com'') (Some ''2'') None Primary 200) = Primary
     \<and> contact 2 (Some ''b@x.com'') (Some ''2'') None Primary 200
        \<noteq> contact 1 (Some ''a@x.com'') (Some ''1'') None Primary 100"
    by (simp add: contact_def)
  from electPrimary_spec [of "[contact 2 (Some ''b@x.com'') (Some ''2'') None Primary 200,
                 contact 3 (Some ''c@x.com'') (Some ''1'') (Some 1) Secondary 50,
                 contact 1 (Some ''a@x.com'') (Some ''1'') None Primary 100]"] e d m p
  have "createdAt (contact 1 (Some ''a@x.com'') (Some ''1'') None Primary 100)
       < createdAt (contact 2 (Some ''b@x.com'') (Some ''2'') None Primary 200)"
    by blast
  with e d show ?thesis by blast
qed

text \<open>
  Claim C7. Let two enumerations hold the same contacts, and let \<open>a\<close> be a primary among
  them that is strictly older than every other primary (for two independent primaries: A
  older, B newer). Then both enumerations elect \<open>a\<close>: the election does not depend on the
  order in which the cluster is scanned.
\<close>

theorem electPrimary_order_independent:
  assumes "set xs = set ys"
    and "a \<in> set xs" "linkPrecedence a = Primary"
    and "\<forall>q \<in> set xs. linkPrecedence q = Primary \<and> q \<noteq> a \<longrightarrow> createdAt a < createdAt q"
  shows "electPrimary xs = Some a \<and> electPrimary ys = Some a"
  using assms electPrimary_oldest [of a xs] electPrimary_oldest [of a ys] by simp

theorem electPrimary_order_independent_witness:
  "electPrimary [contact 1 (Some ''e1'') (Some ''p1'') None Primary 100,
                 contact 2 (Some ''e2'') (Some ''p2'') None Primary 200]
     = Some (contact 1 (Some ''e1'') (Some ''p1'') None Primary 100)
   \<and> electPrimary [contact 2 (Some ''e2'') (Some ''p2'') None Primary 200,
                   contact 1 (Some ''e1'') (Some ''p1'') None Primary 100]
     = Some (contact 1 (Some ''e1'') (Some ''p1'') None Primary 100)"
proof -
  have "set [contact 1 (Some ''e1'') (Some ''p1'') None Primary 100,
             contact 2 (Some ''e2'') (Some ''p2'') None Primary 200]
      = set [contact 2 (Some ''e2'') (Some ''p2'') None Primary 200,
             contact 1 (Some ''e1'') (Some ''p1'') None Primary 100]"
    by auto
  moreover have "contact 1 (Some ''e1'') (Some ''p1'') None Primary 100
      \<in> set [contact 1 (Some ''e1'') (Some ''p1'') None Primary 100,
             contact 2 (Some ''e2'') (Some ''p2'') None Primary 200]"
    by simp
  moreover have "linkPrecedence (contact 1 (Some ''e1'') (Some ''p1'') None Primary 100) = Primary"
    by (simp add: contact_def)
  moreover have "\<forall>q \<in> set [contact 1 (Some ''e1'') (Some ''p1'') None Primary 100,
             contact 2 (Some ''e2'') (Some ''p2'') None Primary 200].
      linkPrecedence q = Primary \<and> q \<noteq> contact 1 (Some ''e1'') (Some ''p1'') None Primary 100
        \<longrightarrow> createdAt (contact 1 (Some ''e1'') (Some ''p1'') None Primary 100) < createdAt q"
    by (simp add: contact_def)
  ultimately show ?thesis
    by (rule electPrimary_order_independent)
qed

section \<open>The response formatter\<close>

lemma set_dedupFirst [simp]: "set (dedupFirst xs) = set xs"
  by (induction xs rule: dedupFirst.induct) auto

lemma distinct_dedupFirst [simp]: "distinct (dedupFirst xs)"
  by (induction xs rule: dedupFirst.induct) auto

lemma foldl_addValue:
  "foldl addValue acc vs = acc @ dedupFirst (filter (\<lambda>x. x \<notin> set acc) (presentValues vs))"
proof (induction vs arbitrary: acc)
  case Nil
  then show ?case by (simp add: presentValues_def)
next
  case (Cons v vs)
  show ?case
  proof (cases "\<exists>x. v = Some x \<and> x \<noteq> [] \<and> x \<notin> set acc")
    case True
    then obtain x where v: "v = Some x" "x \<noteq> []" "x \<notin> set acc" by blast
    have "filter (\<lambda>y. y \<noteq> x) (filter (\<lambda>y. y \<notin> set acc) (presentValues vs))
          = filter (\<lambda>y. y \<notin> set (acc @ [x])) (presentValues vs)"
      by (auto intro: filter_cong)
    with v Cons [of "acc @ [x]"] show ?thesis
      by (simp add: addValue_def presentValues_def)
  next
    case False
    then have "addValue acc v = acc" by (auto simp: addValue_def split: option.splits)
    moreover have "filter (\<lambda>x. x \<notin> set acc) (presentValues (v # vs))
                   = filter (\<lambda>x. x \<notin> set acc) (presentValues vs)"
      using False by (auto simp: presentValues_def split: option.splits)
    ultimately show ?thesis using Cons [of acc] by simp
  qed
qed

lemma addValue_Nil: "addValue [] v = presentValues [v]"
  by (simp add: addValue_def presentValues_def split: option.splits)

lemma presentValues_Cons: "presentValues (v # vs) = presentValues [v] @ presentValues vs"
  by (simp add: presentValues_def)

lemma dedupFirst_append_single:
  "length ys \<le> 1 \<Longrightarrow> dedupFirst (ys @ xs) = ys @ dedupFirst (filter (\<lambda>x. x \<notin> set ys) xs)"
  by (cases ys) auto

lemma collect_values:
  "foldl addValue (addValue [] v) vs = dedupFirst (presentValues (v # vs))"
proof -
  have "length (presentValues [v]) \<le> 1"
    by (simp add: presentValues_def split: option.splits)
  then show ?thesis
    unfolding foldl_addValue addValue_Nil presentValues_Cons [of v vs]
    by (simp add: dedupFirst_append_single)
qed

lemma formatResponse_Inr:
  assumes "formatResponse cluster = Inr r"
  obtains p where "find (\<lambda>c. linkPrecedence c = Primary) cluster = Some p"
    and "primaryContactId r = cid p"
    and "secondaryContactIds r = map cid (sort_key cid (filter (\<lambda>c. linkPrecedence c = Secondary) cluster))"
    and "emails r = dedupFirst (presentValues (email p # map email (sort_key cid (filter (\<lambda>c. linkPrecedence c = Secondary) cluster))))"
    and "phoneNumbers r = dedupFirst (presentValues (phoneNumber p # map phoneNumber (sort_key cid (filter (\<lambda>c. linkPrecedence c = Secondary) cluster))))"
  using assms unfolding formatResponse_def Let_def collect_values
  by (auto split: option.splits)

lemma sorted_distinct_strict: "sorted xs \<Longrightarrow> distinct xs \<Longrightarrow> sorted_wrt (<) (xs :: int list)"
  by (simp add: strict_sorted_iff)

lemma distinct_map_sort_key:
  "distinct (map f (sort_key g xs)) = distinct (map f xs)"
proof -
  have "mset (map f (sort_key g xs)) = mset (map f xs)" by simp
  then show ?thesis by (rule mset_eq_imp_distinct_iff)
qed

lemma query_distinct_ids:
  "distinct (map cid (rows s)) \<Longrightarrow> distinct (map cid (findManyAsc wh s))"
  by (simp add: findManyAsc_def distinct_map_sort_key distinct_map_filter)

text \<open>
  Claim C5. A cluster handed to the response formatter is the result of a store query or a
  single new row, so its ids are pairwise distinct (\<open>id\<close> is the key of the table). For
  every such cluster with a response, \<open>secondaryContactIds\<close> is strictly ascending, has no
  duplicates and does not contain \<open>primaryContactId\<close>, and \<open>emails\<close> and
  \<open>phoneNumbers\<close> have no duplicates and no empty value.
\<close>

theorem formatResponse_sets:
  assumes "formatResponse cluster = Inr r" and "distinct (map cid cluster)"
  shows "sorted_wrt (<) (secondaryContactIds r) \<and> distinct (secondaryContactIds r)
         \<and> primaryContactId r \<notin> set (secondaryContactIds r)
         \<and> distinct (emails r) \<and> distinct (phoneNumbers r)
         \<and> [] \<notin> set (emails r) \<and> [] \<notin> set (phoneNumbers r)"
proof -
  from assms(1) obtain p where p: "find (\<lambda>c. linkPrecedence c = Primary) cluster = Some p"
    and r: "primaryContactId r = cid p"
      "secondaryContactIds r = map cid (sort_key cid (filter (\<lambda>c. linkPrecedence c = Secondary) cluster))"
      "emails r = dedupFirst (presentValues (email p # map email (sort_key cid (filter (\<lambda>c. linkPrecedence c = Secondary) cluster))))"
      "phoneNumbers r = dedupFirst (presentValues (phoneNumber p # map phoneNumber (sort_key cid (filter (\<lambda>c. linkPrecedence c = Secondary) cluster))))"
    by (rule formatResponse_Inr)
  have dist: "distinct (secondaryContactIds r)"
    unfolding r(2) distinct_map_sort_key using assms(2) by (simp add: distinct_map_filter)
  have "sorted (secondaryContactIds r)" unfolding r(2) by simp
  with dist have asc: "sorted_wrt (<) (secondaryContactIds r)"
    by (simp add: sorted_distinct_strict)
  from p have pin: "p \<in> set cluster" "linkPrecedence p = Primary"
    by (auto simp: find_Some_iff)
  have "cid p \<notin> set (secondaryContactIds r)"
  proof
    assume "cid p \<in> set (secondaryContactIds r)"
    then obtain q where q: "q \<in> set cluster" "linkPrecedence q = Secondary" "cid q = cid p"
      unfolding r(2) by auto
    from assms(2) have "inj_on cid (set cluster)" by (simp add: distinct_map)
    with q(1,3) pin(1) have "q = p" by (auto dest: inj_onD)
    with q(2) pin(2) show False by simp
  qed
  moreover have "[] \<notin> set (presentValues vs)" for vs
    by (auto simp: presentValues_def split: option.splits if_splits)
  ultimately show ?thesis using dist asc r by simp
qed

theorem formatResponse_sets_witness:
  "formatResponse [contact 1 (Some ''a@x.com'') (Some ''1'') None Primary 100,
                   contact 3 (Some ''a@x.com'') (Some ''2'') (Some 1) Secondary 300,
                   contact 2 (Some ''b@x.com'') (Some ''1'') (Some 1) Secondary 200]
     = Inr \<lparr>primaryContactId = 1, emails = [''a@x.com'', ''b@x.com''],
            phoneNumbers = [''1'', ''2''], secondaryContactIds = [2, 3]\<rparr>
   \<and> distinct (map cid [contact 1 (Some ''a@x.com'') (Some ''1'') None Primary 100,
                   contact 3 (Some ''a@x.com'') (Some ''2'') (Some 1) Secondary 300,
                   contact 2 (Some ''b@x.com'') (Some ''1'') (Some 1) Secondary 200])"
proof -
  have f: "formatResponse [contact 1 (Some ''a@x.com'') (Some ''1'') None Primary 100,
                   contact 3 (Some ''a@x.com'') (Some ''2'') (Some 1) Secondary 300,
                   contact 2 (Some ''b@x.com'') (Some ''1'') (Some 1) Secondary 200]
     = Inr \<lparr>primaryContactId = 1, emails = [''a@x.com'', ''b@x.com''],
            phoneNumbers = [''1'', ''2''], secondaryContactIds = [2, 3]\<rparr>"
    by (simp add: eval_defs)
  have d: "distinct (map cid [contact 1 (Some ''a@x.com'') (Some ''1'') None Primary 100,
                   contact 3 (Some ''a@x.com'') (Some ''2'') (Some 1) Secondary 300,
                   contact 2 (Some ''b@x.com'') (Some ''1'') (Some 1) Secondary 200])"
    by (simp add: contact_def)
  show ?thesis using formatResponse_sets [OF f d] f d by simp
qed

lemma presentValues_single_truthy:
  "truthy v \<Longrightarrow> presentValues (v # vs) \<noteq> [] \<and> Some (hd (presentValues (v # vs))) = v"
  by (auto simp: truthy_def presentValues_def split: option.splits)

lemma hd_dedupFirst: "xs \<noteq> [] \<Longrightarrow> dedupFirst xs \<noteq> [] \<and> hd (dedupFirst xs) = hd xs"
  by (cases xs) auto

text \<open>
  Claim C6, as amended. The formatter takes the first primary of the cluster. When that
  primary's own email is present, \<open>emails\<close> is not empty and starts with it, and likewise
  for the phone number. Each list holds the primary's value, if present, and then the
  values of the secondaries in ascending order of id, nulls and values already seen left
  out.
\<close>

theorem formatResponse_ordering:
  assumes "formatResponse cluster = Inr r"
  shows "\<exists>p. find (\<lambda>c. linkPrecedence c = Primary) cluster = Some p
           \<and> primaryContactId r = cid p
           \<and> (truthy (email p) \<longrightarrow> emails r \<noteq> [] \<and> Some (hd (emails r)) = email p)
           \<and> (truthy (phoneNumber p) \<longrightarrow>
                phoneNumbers r \<noteq> [] \<and> Some (hd (phoneNumbers r)) = phoneNumber p)
           \<and> emails r = dedupFirst (presentValues (email p #
                map email (sort_key cid (filter (\<lambda>c. linkPrecedence c = Secondary) cluster))))
           \<and> phoneNumbers r = dedupFirst (presentValues (phoneNumber p #
                map phoneNumber (sort_key cid (filter (\<lambda>c. linkPrecedence c = Secondary) cluster))))"
proof -
  from assms obtain p where p: "find (\<lambda>c. linkPrecedence c = Primary) cluster = Some p"
    and r: "primaryContactId r = cid p"
      "emails r = dedupFirst (presentValues (email p # map email (sort_key cid (filter (\<lambda>c. linkPrecedence c = Secondary) cluster))))"
      "phoneNumbers r = dedupFirst (presentValues (phoneNumber p # map phoneNumber (sort_key cid (filter (\<lambda>c. linkPrecedence c = Secondary) cluster))))"
    by (rule formatResponse_Inr)
  have "truthy (email p) \<longrightarrow> emails r \<noteq> [] \<and> Some (hd (emails r)) = email p"
    unfolding r(2) using presentValues_single_truthy hd_dedupFirst by metis
  moreover have "truthy (phoneNumber p) \<longrightarrow>
      phoneNumbers r \<noteq> [] \<and> Some (hd (phoneNumbers r)) = phoneNumber p"
    unfolding r(3) using presentValues_single_truthy hd_dedupFirst by metis
  ultimately show ?thesis using p r by blast
qed

theorem formatResponse_ordering_witness:
  "formatResponse [contact 1 (Some ''a@x.com'') (Some ''1'') None Primary 100,
                   contact 2 (Some ''b@x.com'') (Some ''1'') (Some 1) Secondary 200]
     = Inr \<lparr>primaryContactId = 1, emails = [''a@x.com'', ''b@x.com''], phoneNumbers = [''1''],
            secondaryContactIds = [2]\<rparr>
   \<and> truthy (email (contact 1 (Some ''a@x.com'') (Some ''1'') None Primary 100))
   \<and> truthy (phoneNumber (contact 1 (Some ''a@x.com'') (Some ''1'') None Primary 100))"
proof -
  have f: "formatResponse [contact 1 (Some ''a@x.com'') (Some ''1'') None Primary 100,
                   contact 2 (Some ''b@x.com'') (Some ''1'') (Some 1) Secondary 200]
     = Inr \<lparr>primaryContactId = 1, emails = [''a@x.com'', ''b@x.com''], phoneNumbers = [''1''],
            secondaryContactIds = [2]\<rparr>"
    by (simp add: eval_defs)
  show ?thesis
    using formatResponse_ordering [OF f] f by (simp add: eval_defs)
qed

text \<open>
  Claim C6 as it is written says that a non-empty \<open>emails\<close> list starts with the primary's
  own email. A phone-only request on the empty store followed by a request that adds an
  email to that phone leaves a primary without an email and a secondary with one: the list
  starts with the secondary's email.
\<close>

theorem formatResponse_first_email_counterexample:
  "fetchFinalCluster
     (snd (identify 200
        (snd (identify 100 emptyStore \<lparr>email_in = None, phoneNumber_in = Some ''1''\<rparr>))
        \<lparr>email_in = Some ''a@x.com'', phoneNumber_in = Some ''1''\<rparr>)) 1
     = [contact 1 None (Some ''1'') None Primary 100,
        contact 2 (Some ''a@x.com'') (Some ''1'') (Some 1) Secondary 200]
   \<and> formatResponse [contact 1 None (Some ''1'') None Primary 100,
                     contact 2 (Some ''a@x.com'') (Some ''1'') (Some 1) Secondary 200]
     = Inr \<lparr>primaryContactId = 1, emails = [''a@x.com''], phoneNumbers = [''1''],
            secondaryContactIds = [2]\<rparr>
   \<and> email (contact 1 None (Some ''1'') None Primary 100) = None"
  by (simp add: eval_defs)

section \<open>A request that matches nothing\<close>

lemma createContact_fault: "createContact now s em ph lid prec = Inl e \<Longrightarrow> e = StoreFault"
  by (auto simp: createContact_def Let_def split: if_splits)

lemma createContact_Inr_iff:
  "(\<exists>c t. createContact now s em ph lid prec = Inr (c, t)) \<longleftrightarrow> insertable s em ph"
  by (auto simp: createContact_def Let_def)

lemma createContact_refused:
  "\<not> insertable s em ph \<Longrightarrow> createContact now s em ph lid prec = Inl StoreFault"
  by (simp add: createContact_def Let_def)

lemma identifyTx_no_match:
  assumes "findDirectMatches s (email_in inp) (phoneNumber_in inp) = []"
  shows "identifyTx now inp s =
     (case createContact now s (email_in inp) (phoneNumber_in inp) None Primary of
        Inl e \<Rightarrow> (Inl e, s)
      | Inr (newContact, s1) \<Rightarrow> (formatResponse [newContact], s1))"
  using assms by (simp add: identifyTx_def)

text \<open>
  Claim C4, as amended. Let at least one field be given and no non-deleted row carry the
  given email or the given phone number. When the table accepts the row (email of at most
  255 characters, phone number of at most 20, the id sequence within the range of \<open>Int\<close>
  and not on an id in use), \<open>identify\<close> appends exactly one row, a primary without
  \<open>linkedId\<close> that stores the fields as received, and answers with that row alone: its id,
  the given email and phone number, and no secondary. When the table refuses the row,
  \<open>identify\<close> ends with the store's fault and the rows are as they were: nothing is
  created.
\<close>

theorem identify_new_identity:
  assumes "truthy (email_in inp) \<or> truthy (phoneNumber_in inp)"
    and "\<forall>c \<in> set (rows s). \<not> directMatch (email_in inp) (phoneNumber_in inp) c"
  shows "(insertable s (email_in inp) (phoneNumber_in inp) \<longrightarrow>
          identify now s inp =
           (Inr \<lparr>primaryContactId = nextId s,
                 emails = presentValues [email_in inp],
                 phoneNumbers = presentValues [phoneNumber_in inp],
                 secondaryContactIds = []\<rparr>,
            \<lparr>rows = rows s @ [\<lparr>cid = nextId s, email = email_in inp,
                                phoneNumber = phoneNumber_in inp, linkedId = None,
                                linkPrecedence = Primary, createdAt = now, updatedAt = now,
                                deletedAt = None\<rparr>],
             nextId = nextId s + 1,
             journal = journal s @ [rows s @ [\<lparr>cid = nextId s, email = email_in inp,
                                phoneNumber = phoneNumber_in inp, linkedId = None,
                                linkPrecedence = Primary, createdAt = now, updatedAt = now,
                                deletedAt = None\<rparr>]]\<rparr>))
         \<and> (\<not> insertable s (email_in inp) (phoneNumber_in inp) \<longrightarrow>
              fst (identify now s inp) = Inl StoreFault
              \<and> rows (snd (identify now s inp)) = rows s)"
proof -
  have "findDirectMatches s (email_in inp) (phoneNumber_in inp) = []"
    using assms(2) by (simp add: findDirectMatches_eq findManyAsc_def filter_empty_conv)
  note tx = identifyTx_no_match [OF this, of now]
  show ?thesis
  proof (intro conjI impI)
    assume "insertable s (email_in inp) (phoneNumber_in inp)"
    with tx assms(1) show "identify now s inp =
           (Inr \<lparr>primaryContactId = nextId s,
                 emails = presentValues [email_in inp],
                 phoneNumbers = presentValues [phoneNumber_in inp],
                 secondaryContactIds = []\<rparr>,
            \<lparr>rows = rows s @ [\<lparr>cid = nextId s, email = email_in inp,
                                phoneNumber = phoneNumber_in inp, linkedId = None,
                                linkPrecedence = Primary, createdAt = now, updatedAt = now,
                                deletedAt = None\<rparr>],
             nextId = nextId s + 1,
             journal = journal s @ [rows s @ [\<lparr>cid = nextId s, email = email_in inp,
                                phoneNumber = phoneNumber_in inp, linkedId = None,
                                linkPrecedence = Primary, createdAt = now, updatedAt = now,
                                deletedAt = None\<rparr>]]\<rparr>)"
      by (simp add: identify_def transaction_def createContact_def commitRows_def
            formatResponse_def addValue_Nil Let_def)
  next
    assume "\<not> insertable s (email_in inp) (phoneNumber_in inp)"
    with tx assms(1) have "identify now s inp = (Inl StoreFault, s)"
      by (simp add: identify_def transaction_def createContact_refused)
    then show "fst (identify now s inp) = Inl StoreFault"
      and "rows (snd (identify now s inp)) = rows s" by simp_all
  qed
qed

theorem identify_new_identity_witness:
  "(truthy (Some ''new@x.com'') \<or> truthy (Some ''555''))
   \<and> findDirectMatches mergeStore (Some ''new@x.com'') (Some ''555'') = []
   \<and> insertable mergeStore (Some ''new@x.com'') (Some ''555'')
   \<and> fst (identify 400 mergeStore \<lparr>email_in = Some ''new@x.com'', phoneNumber_in = Some ''555''\<rparr>)
     = Inr \<lparr>primaryContactId = 4, emails = [''new@x.com''], phoneNumbers = [''555''],
            secondaryContactIds = []\<rparr>
   \<and> length (rows (snd (identify 400 mergeStore
         \<lparr>email_in = Some ''new@x.com'', phoneNumber_in = Some ''555''\<rparr>))) = 4"
proof -
  have v: "truthy (email_in \<lparr>email_in = Some ''new@x.com'', phoneNumber_in = Some ''555''\<rparr>)
      \<or> truthy (phoneNumber_in \<lparr>email_in = Some ''new@x.com'', phoneNumber_in = Some ''555''\<rparr>)"
    by (simp add: truthy_def)
  have n: "\<forall>c \<in> set (rows mergeStore).
      \<not> directMatch (email_in \<lparr>email_in = Some ''new@x.com'', phoneNumber_in = Some ''555''\<rparr>)
          (phoneNumber_in \<lparr>email_in = Some ''new@x.com'', phoneNumber_in = Some ''555''\<rparr>) c"
    by (simp add: mergeStore_def directMatch_def contact_def)
  have d: "findDirectMatches mergeStore (Some ''new@x.com'') (Some ''555'') = []"
    by (simp add: mergeStore_def eval_defs)
  have i: "insertable mergeStore (Some ''new@x.com'') (Some ''555'')"
    by (simp add: mergeStore_def insertable_def fitsColumn_def contact_def)
  from identify_new_identity [OF v n, of 400] i
  have "identify 400 mergeStore \<lparr>email_in = Some ''new@x.com'', phoneNumber_in = Some ''555''\<rparr>
      = (Inr \<lparr>primaryContactId = nextId mergeStore,
             emails = presentValues [Some ''new@x.com''],
             phoneNumbers = presentValues [Some ''555''], secondaryContactIds = []\<rparr>,
         \<lparr>rows = rows mergeStore @ [\<lparr>cid = nextId mergeStore, email = Some ''new@x.com'',
                    phoneNumber = Some ''555'', linkedId = None, linkPrecedence = Primary,
                    createdAt = 400, updatedAt = 400, deletedAt = None\<rparr>],
          nextId = nextId mergeStore + 1,
          journal = journal mergeStore @ [rows mergeStore @ [\<lparr>cid = nextId mergeStore,
                    email = Some ''new@x.com'', phoneNumber = Some ''555'', linkedId = None,
                    linkPrecedence = Primary, createdAt = 400, updatedAt = 400,
                    deletedAt = None\<rparr>]]\<rparr>)"
    by simp
  then have "fst (identify 400 mergeStore
        \<lparr>email_in = Some ''new@x.com'', phoneNumber_in = Some ''555''\<rparr>)
      = Inr \<lparr>primaryContactId = 4, emails = [''new@x.com''], phoneNumbers = [''555''],
            secondaryContactIds = []\<rparr>
    \<and> length (rows (snd (identify 400 mergeStore
         \<lparr>email_in = Some ''new@x.com'', phoneNumber_in = Some ''555''\<rparr>))) = 4"
    by (simp add: mergeStore_def presentValues_def)
  with d i show ?thesis by (simp add: truthy_def)
qed

text \<open>
  Claim C4 as it is written promises the new primary for every input. A phone number of
  21 characters, a plus sign and 20 digits, passes the controller's pattern and matches
  nothing in the empty table, but the column holds 20 characters: the insert is refused,
  the request ends with the store's fault and no row is created.
\<close>

theorem identify_new_identity_counterexample:
  "truthy (Some ''+12345678901234567890'')
   \<and> rows emptyStore = []
   \<and> length ''+12345678901234567890'' = 21
   \<and> fst (identify 100 emptyStore
          \<lparr>email_in = None, phoneNumber_in = Some ''+12345678901234567890''\<rparr>)
       = Inl StoreFault
   \<and> rows (snd (identify 100 emptyStore
          \<lparr>email_in = None, phoneNumber_in = Some ''+12345678901234567890''\<rparr>)) = []"
  by (simp add: eval_defs)

section \<open>The validation guard\<close>

lemma formatResponse_fault: "formatResponse cluster = Inl e \<Longrightarrow> e = InvariantFault"
  by (auto simp: formatResponse_def Let_def split: option.splits)

lemma demoteExtras_fault:
  "demoteExtras now s ds cp = (Some e, s') \<Longrightarrow> e = TypeError \<or> e = StoreFault"
proof (induction ds arbitrary: s)
  case Nil
  then show ?case by simp
next
  case (Cons d ds)
  then show ?case
    by (auto simp: demoteToSecondary_def Let_def split: option.splits sum.splits if_splits)
qed

lemma identifyTx_fault:
  assumes "identifyTx now inp s = (Inl e, s')"
  shows "e \<noteq> ValidationFault"
proof
  assume e: "e = ValidationFault"
  have nf: "formatResponse cl \<noteq> Inl ValidationFault" for cl
    using formatResponse_fault [of cl ValidationFault] by auto
  have nd: "demoteExtras now s ds cp \<noteq> (Some ValidationFault, t)" for ds cp t
    using demoteExtras_fault [of now s ds cp ValidationFault t] by auto
  have nc: "createContact now t em ph lid prec \<noteq> Inl ValidationFault" for t em ph lid prec
    using createContact_fault [of now t em ph lid prec ValidationFault] by auto
  from assms show False
    unfolding identifyTx_def Let_def e
    by (auto simp: nf nd nc split: if_splits prod.splits option.splits sum.splits)
qed

text \<open>
  Claim C8. \<open>identify\<close> ends with the validation fault exactly when both fields are
  absent (null, undefined or the empty string). In that case the transaction is never
  entered: the outcome is the fault and the unchanged store, whatever the store holds.
  A request that gives a field never ends with this fault.
\<close>

theorem identify_validation:
  "(fst (identify now s inp) = Inl ValidationFault
      \<longleftrightarrow> \<not> truthy (email_in inp) \<and> \<not> truthy (phoneNumber_in inp))
   \<and> (\<not> truthy (email_in inp) \<and> \<not> truthy (phoneNumber_in inp)
      \<longrightarrow> identify now s inp = (Inl ValidationFault, s))"
proof -
  have "fst (transaction (identifyTx now inp) s) \<noteq> Inl ValidationFault"
    using identifyTx_fault [of now inp s ValidationFault]
    by (auto simp: transaction_def split: prod.splits sum.splits)
  then show ?thesis by (simp add: identify_def)
qed

theorem identify_validation_witness:
  "\<not> truthy (email_in \<lparr>email_in = None, phoneNumber_in = Some ''''\<rparr>)
   \<and> \<not> truthy (phoneNumber_in \<lparr>email_in = None, phoneNumber_in = Some ''''\<rparr>)
   \<and> identify 100 emptyStore \<lparr>email_in = None, phoneNumber_in = Some ''''\<rparr>
       = (Inl ValidationFault, emptyStore)
   \<and> truthy (phoneNumber_in \<lparr>email_in = None, phoneNumber_in = Some ''1''\<rparr>)
   \<and> fst (identify 100 emptyStore \<lparr>email_in = None, phoneNumber_in = Some ''1''\<rparr>)
       \<noteq> Inl ValidationFault"
  using identify_validation [of 100 emptyStore "\<lparr>email_in = None, phoneNumber_in = Some ''''\<rparr>"]
    identify_validation [of 100 emptyStore "\<lparr>email_in = None, phoneNumber_in = Some ''1''\<rparr>"]
  by (simp add: truthy_def)

section \<open>The flat invariant at every write\<close>

lemma flat_noChain:
  assumes "distinct (map cid rs)" "flat rs"
  shows "noChain rs"
  unfolding noChain_def
proof (intro ballI impI)
  fix c q assume c: "c \<in> set rs" and q: "q \<in> set rs"
    and h: "deletedAt c = None \<and> linkPrecedence c = Secondary \<and> linkedId c = Some (cid q)"
  with assms(2) obtain p where p: "p \<in> set rs" "linkedId c = Some (cid p)" "linkPrecedence p = Primary"
    unfolding flat_def by blast
  from assms(1) have "inj_on cid (set rs)" by (simp add: distinct_map)
  with p(1,2) q h have "p = q" by (auto dest: inj_onD)
  with p(3) show "linkPrecedence q = Primary" by simp
qed

lemma flat_map:
  assumes "flat rs"
    and "\<And>r. r \<in> set rs \<Longrightarrow> cid (g r) = cid r"
    and "\<And>r. r \<in> set rs \<Longrightarrow> deletedAt (g r) = None \<Longrightarrow> linkPrecedence (g r) = Secondary \<Longrightarrow>
           \<exists>p \<in> set rs. linkedId (g r) = Some (cid p) \<and> linkPrecedence (g p) = Primary"
  shows "flat (map g rs)"
  unfolding flat_def
proof (intro ballI impI)
  fix c assume "c \<in> set (map g rs)"
    and h: "deletedAt c = None \<and> linkPrecedence c = Secondary"
  then obtain r where r: "r \<in> set rs" "c = g r" by auto
  with h assms(3) [of r] obtain p where p: "p \<in> set rs" "linkedId (g r) = Some (cid p)"
      "linkPrecedence (g p) = Primary" by auto
  with assms(2) [of p] have "g p \<in> set (map g rs) \<and> linkedId c = Some (cid (g p))
      \<and> linkPrecedence (g p) = Primary"
    using r(2) by simp
  then show "\<exists>p \<in> set (map g rs). linkedId c = Some (cid p) \<and> linkPrecedence p = Primary"
    by blast
qed

lemma hasPrimary_map:
  assumes "hasPrimary rs c"
    and "\<And>r. r \<in> set rs \<Longrightarrow> cid (g r) = cid r"
    and "\<And>r. r \<in> set rs \<Longrightarrow> cid r = c \<Longrightarrow> linkPrecedence (g r) = linkPrecedence r"
  shows "hasPrimary (map g rs) c"
  using assms unfolding hasPrimary_def by force

lemma rows_reparentSecondaries:
  "rows (reparentSecondaries now s d c) =
     map (\<lambda>r. if linkedId r = Some d \<and> deletedAt r = None
               then r\<lparr>linkedId := Some c, updatedAt := now\<rparr> else r) (rows s)"
  "nextId (reparentSecondaries now s d c) = nextId s"
  "journal (reparentSecondaries now s d c) = journal s @ [rows (reparentSecondaries now s d c)]"
  by (simp_all add: reparentSecondaries_def commitRows_def)

lemma rows_demoteToSecondary:
  assumes "demoteToSecondary now s d c = Inr s'"
  shows "rows s' = map (\<lambda>r. if cid r = d
               then r\<lparr>linkedId := Some c, linkPrecedence := Secondary, updatedAt := now\<rparr>
               else r) (rows s)"
    "nextId s' = nextId s"
    "journal s' = journal s @ [rows s']"
  using assms by (auto simp: demoteToSecondary_def commitRows_def split: if_splits)

lemma reparent_keeps_ids:
  "map cid (rows (reparentSecondaries now s d c)) = map cid (rows s)"
  by (simp add: rows_reparentSecondaries)

lemma demote_keeps_ids:
  "demoteToSecondary now s d c = Inr s' \<Longrightarrow> map cid (rows s') = map cid (rows s)"
  by (simp add: rows_demoteToSecondary)

lemma reparent_flat:
  assumes "flat (rows s)" "hasPrimary (rows s) c"
  shows "flat (rows (reparentSecondaries now s d c))"
  unfolding rows_reparentSecondaries
proof (rule flat_map [OF assms(1)])
  fix r assume "r \<in> set (rows s)"
  then show "cid (if linkedId r = Some d \<and> deletedAt r = None
               then r\<lparr>linkedId := Some c, updatedAt := now\<rparr> else r) = cid r" by simp
next
  let ?g = "\<lambda>r. if linkedId r = Some d \<and> deletedAt r = None
               then r\<lparr>linkedId := Some c, updatedAt := now\<rparr> else r"
  fix r assume r: "r \<in> set (rows s)" and nd: "deletedAt (?g r) = None"
    and sec: "linkPrecedence (?g r) = Secondary"
  have keep: "linkPrecedence (?g p) = linkPrecedence p" for p by simp
  show "\<exists>p \<in> set (rows s). linkedId (?g r) = Some (cid p) \<and> linkPrecedence (?g p) = Primary"
  proof (cases "linkedId r = Some d \<and> deletedAt r = None")
    case True
    then have "linkedId (?g r) = Some c" by simp
    with assms(2) show ?thesis unfolding hasPrimary_def keep by auto
  next
    case False
    then have g: "?g r = r" by (rule if_not_P)
    from nd sec have "deletedAt r = None \<and> linkPrecedence r = Secondary"
      unfolding g by simp
    with r assms(1) obtain p where "p \<in> set (rows s)" "linkedId r = Some (cid p)"
        "linkPrecedence p = Primary"
      unfolding flat_def by blast
    then show ?thesis unfolding g keep by blast
  qed
qed

lemma reparent_no_link:
  assumes "d \<noteq> c" "r \<in> set (rows (reparentSecondaries now s d c))" "deletedAt r = None"
  shows "linkedId r \<noteq> Some d"
  using assms unfolding rows_reparentSecondaries by (auto split: if_splits)

lemma demote_flat:
  assumes "demoteToSecondary now s d c = Inr s'"
    and "flat (rows s)" "hasPrimary (rows s) c" "d \<noteq> c"
    and nolink: "\<And>r. r \<in> set (rows s) \<Longrightarrow> deletedAt r = None \<Longrightarrow> linkedId r \<noteq> Some d"
  shows "flat (rows s')"
  unfolding rows_demoteToSecondary(1) [OF assms(1)]
proof (rule flat_map [OF assms(2)])
  fix r assume "r \<in> set (rows s)"
  then show "cid (if cid r = d
               then r\<lparr>linkedId := Some c, linkPrecedence := Secondary, updatedAt := now\<rparr>
               else r) = cid r" by simp
next
  let ?g = "\<lambda>r. if cid r = d
               then r\<lparr>linkedId := Some c, linkPrecedence := Secondary, updatedAt := now\<rparr>
               else r"
  fix r assume r: "r \<in> set (rows s)" and nd: "deletedAt (?g r) = None"
    and sec: "linkPrecedence (?g r) = Secondary"
  show "\<exists>p \<in> set (rows s). linkedId (?g r) = Some (cid p) \<and> linkPrecedence (?g p) = Primary"
  proof (cases "cid r = d")
    case True
    then have l: "linkedId (?g r) = Some c" by simp
    from assms(3) obtain p where p: "p \<in> set (rows s)" "cid p = c" "linkPrecedence p = Primary"
      unfolding hasPrimary_def by blast
    with assms(4) have "linkPrecedence (?g p) = Primary" by auto
    with l p(1,2) show ?thesis by blast
  next
    case False
    then have g: "?g r = r" by (rule if_not_P)
    from nd sec have "deletedAt r = None \<and> linkPrecedence r = Secondary"
      unfolding g by simp
    with r assms(2) obtain p where p: "p \<in> set (rows s)" "linkedId r = Some (cid p)"
        "linkPrecedence p = Primary"
      unfolding flat_def by blast
    from nolink [OF r] nd p(2) have "cid p \<noteq> d" unfolding g by auto
    with p(3) have "linkPrecedence (?g p) = Primary" by simp
    with p(1,2) show ?thesis unfolding g by blast
  qed
qed

lemma reparent_hasPrimary:
  "hasPrimary (rows s) c \<Longrightarrow> hasPrimary (rows (reparentSecondaries now s d c')) c"
  unfolding rows_reparentSecondaries by (rule hasPrimary_map) auto

lemma demote_hasPrimary:
  "demoteToSecondary now s d c' = Inr s' \<Longrightarrow> d \<noteq> c \<Longrightarrow> hasPrimary (rows s) c
     \<Longrightarrow> hasPrimary (rows s') c"
  unfolding hasPrimary_def by (force simp: rows_demoteToSecondary)

text \<open>The loop, for any order of the demoted contacts.\<close>

lemma demoteExtras_flat:
  assumes "distinct (map cid (rows s))" "flat (rows s)" "hasPrimary (rows s) (cid cp)"
    and "cid cp \<notin> cid ` set ds"
    and "demoteExtras now s ds (Some cp) = (res, s')"
  shows "\<exists>js. journal s' = journal s @ js \<and> (\<forall>rs \<in> set js. flat rs \<and> noChain rs)
           \<and> flat (rows s') \<and> hasPrimary (rows s') (cid cp)
           \<and> map cid (rows s') = map cid (rows s) \<and> nextId s' = nextId s"
  using assms
proof (induction ds arbitrary: s)
  case Nil
  then show ?case by simp
next
  case (Cons d ds)
  let ?s1 = "reparentSecondaries now s (cid d) (cid cp)"
  from Cons.prems(4) have ne: "cid d \<noteq> cid cp" and rest: "cid cp \<notin> cid ` set ds" by auto
  have f1: "flat (rows ?s1)" using Cons.prems(2,3) by (rule reparent_flat)
  have d1: "distinct (map cid (rows ?s1))" using Cons.prems(1) by (simp add: reparent_keeps_ids)
  have h1: "hasPrimary (rows ?s1) (cid cp)" using Cons.prems(3) by (rule reparent_hasPrimary)
  have n1: "noChain (rows ?s1)" using d1 f1 by (rule flat_noChain)
  have j1: "journal ?s1 = journal s @ [rows ?s1]" by (rule rows_reparentSecondaries)
  show ?case
  proof (cases "demoteToSecondary now ?s1 (cid d) (cid cp)")
    case (Inl e)
    with Cons.prems(5) have "s' = ?s1" by (simp add: Let_def)
    show ?thesis
    proof (intro exI conjI)
      show "journal s' = journal s @ [rows ?s1]" unfolding \<open>s' = ?s1\<close> by (rule j1)
      show "\<forall>rs \<in> set [rows ?s1]. flat rs \<and> noChain rs" using f1 n1 by simp
      show "flat (rows s')" unfolding \<open>s' = ?s1\<close> by (rule f1)
      show "hasPrimary (rows s') (cid cp)" unfolding \<open>s' = ?s1\<close> by (rule h1)
      show "map cid (rows s') = map cid (rows s)"
        unfolding \<open>s' = ?s1\<close> by (rule reparent_keeps_ids)
      show "nextId s' = nextId s" unfolding \<open>s' = ?s1\<close> by (rule rows_reparentSecondaries)
    qed
  next
    case (Inr s2)
    have f2: "flat (rows s2)"
      using Inr f1 h1 ne
    proof (rule demote_flat)
      fix r assume "r \<in> set (rows ?s1)" "deletedAt r = None"
      with ne show "linkedId r \<noteq> Some (cid d)" by (rule reparent_no_link)
    qed
    have d2: "distinct (map cid (rows s2))" using d1 Inr by (simp add: demote_keeps_ids)
    have h2: "hasPrimary (rows s2) (cid cp)" using Inr ne h1 by (rule demote_hasPrimary)
    have n2: "noChain (rows s2)" using d2 f2 by (rule flat_noChain)
    have j2: "journal s2 = journal s @ [rows ?s1, rows s2]"
      using rows_demoteToSecondary(3) [OF Inr] j1 by simp
    from Cons.prems(5) Inr have "demoteExtras now s2 ds (Some cp) = (res, s')"
      by (simp add: Let_def)
    from Cons.IH [OF d2 f2 h2 rest this] obtain js where js:
      "journal s' = journal s2 @ js" "\<forall>rs \<in> set js. flat rs \<and> noChain rs"
      "flat (rows s')" "hasPrimary (rows s') (cid cp)"
      "map cid (rows s') = map cid (rows s2)" "nextId s' = nextId s2"
      by blast
    show ?thesis
    proof (intro exI conjI)
      show "journal s' = journal s @ ([rows ?s1, rows s2] @ js)" using js(1) j2 by simp
      show "\<forall>rs \<in> set ([rows ?s1, rows s2] @ js). flat rs \<and> noChain rs"
        using js(2) f1 n1 f2 n2 by simp
      show "map cid (rows s') = map cid (rows s)"
        using js(5) demote_keeps_ids [OF Inr] by (simp add: reparent_keeps_ids)
      show "nextId s' = nextId s"
        using js(6) rows_demoteToSecondary(2) [OF Inr] by (simp add: rows_reparentSecondaries(2))
    qed (fact js(3) js(4))+
  qed
qed

lemma demoteExtras_rows_last:
  "demoteExtras now s ds cp = (res, s') \<Longrightarrow>
     \<exists>js. journal s' = journal s @ js \<and> rows s' = last (rows s # js)"
proof (induction ds arbitrary: s)
  case Nil
  then show ?case by simp
next
  case (Cons d ds)
  show ?case
  proof (cases cp)
    case None
    with Cons.prems show ?thesis by simp
  next
    case (Some c)
    let ?s1 = "reparentSecondaries now s (cid d) (cid c)"
    have j1: "journal ?s1 = journal s @ [rows ?s1]" by (rule rows_reparentSecondaries)
    show ?thesis
    proof (cases "demoteToSecondary now ?s1 (cid d) (cid c)")
      case (Inl e)
      with Cons.prems Some have "s' = ?s1" by (simp add: Let_def)
      with j1 show ?thesis by simp
    next
      case (Inr s2)
      with Cons.prems Some have "demoteExtras now s2 ds cp = (res, s')" by (simp add: Let_def)
      from Cons.IH [OF this] obtain js where
        js: "journal s' = journal s2 @ js" "rows s' = last (rows s2 # js)" by blast
      have "journal s2 = journal s @ [rows ?s1, rows s2]"
        using rows_demoteToSecondary(3) [OF Inr] j1 by simp
      with js have "journal s' = journal s @ ([rows ?s1, rows s2] @ js)
          \<and> rows s' = last (rows s # ([rows ?s1, rows s2] @ js))"
        by simp
      then show ?thesis by blast
    qed
  qed
qed

lemma append_eq_same: "xs @ ys = xs @ zs \<Longrightarrow> ys = zs"
  by simp

lemma createContact_props:
  assumes "createContact now s em ph lid prec = Inr (c, s')"
  shows "rows s' = rows s @ [c]" "nextId s' = nextId s + 1" "journal s' = journal s @ [rows s']"
    "cid c = nextId s" "linkPrecedence c = prec" "linkedId c = lid" "email c = em"
    "phoneNumber c = ph" "deletedAt c = None"
  using assms by (auto simp: createContact_def commitRows_def Let_def split: if_splits)

lemma createContact_uniqueIds:
  assumes "createContact now s em ph lid prec = Inr (c, s')" "uniqueIds s"
  shows "uniqueIds s'"
  using assms(2) unfolding uniqueIds_def createContact_props(1,2) [OF assms(1)]
  by (auto simp: createContact_props(4) [OF assms(1)])

lemma createContact_flat:
  assumes "createContact now s em ph lid prec = Inr (c, s')" "flat (rows s)"
    and "prec = Secondary \<Longrightarrow> \<exists>k. lid = Some k \<and> hasPrimary (rows s) k"
  shows "flat (rows s')"
  unfolding flat_def createContact_props(1) [OF assms(1)]
proof (intro ballI impI)
  fix r assume r: "r \<in> set (rows s @ [c])"
    and h: "deletedAt r = None \<and> linkPrecedence r = Secondary"
  show "\<exists>p \<in> set (rows s @ [c]). linkedId r = Some (cid p) \<and> linkPrecedence p = Primary"
  proof (cases "r = c")
    case True
    with h have "prec = Secondary" using createContact_props(5) [OF assms(1)] by simp
    from assms(3) [OF this] obtain k where "lid = Some k" "hasPrimary (rows s) k" by blast
    then show ?thesis
      unfolding True hasPrimary_def createContact_props(6) [OF assms(1)] by auto
  next
    case False
    with r have "r \<in> set (rows s)" by simp
    with h assms(2) show ?thesis unfolding flat_def by auto
  qed
qed

lemma distinct_ids_fetchCluster:
  "distinct (map cid (rows s)) \<Longrightarrow> distinct (map cid (primariesOf (fetchCluster s ids)))"
  by (simp add: primariesOf_def fetchCluster_def findManyAsc_def distinct_map_sort_key
        distinct_map_filter)

lemma uniqueIds_alt:
  "uniqueIds s = (distinct (map cid (rows s)) \<and> (\<forall>i \<in> set (map cid (rows s)). i < nextId s))"
  by (auto simp: uniqueIds_def)

lemma elected_in_store:
  assumes "electPrimary (fetchCluster s ids) = Some cp"
  shows "cp \<in> set (rows s)" "linkPrecedence cp = Primary" "deletedAt cp = None"
    "hasPrimary (rows s) (cid cp)"
proof -
  from electPrimary_Some(1,2) [OF assms]
  show a: "cp \<in> set (rows s)" and b: "linkPrecedence cp = Primary" and "deletedAt cp = None"
    by (simp_all add: fetchCluster_def)
  from a b show "hasPrimary (rows s) (cid cp)" unfolding hasPrimary_def by blast
qed

lemma elected_not_demoted:
  assumes "distinct (map cid (rows s))" "electPrimary (fetchCluster s ids) = Some cp"
  shows "cid cp \<notin> cid ` set (drop 1 (primariesOf (fetchCluster s ids)))"
proof -
  from assms(2) obtain ps where ps: "primariesOf (fetchCluster s ids) = cp # ps"
    by (auto simp: electPrimary_def split: list.splits)
  from distinct_ids_fetchCluster [OF assms(1), of ids] show ?thesis
    unfolding ps by simp
qed

lemma identifyTx_flat:
  assumes "uniqueIds s" "flat (rows s)" "identifyTx now inp s = (res, s')"
  shows "\<exists>js. journal s' = journal s @ js \<and> rows s' = last (rows s # js)
           \<and> (\<forall>rs \<in> set js. flat rs \<and> noChain rs)
           \<and> flat (rows s') \<and> uniqueIds s'"
proof -
  let ?em = "email_in inp" and ?ph = "phoneNumber_in inp"
  let ?dm = "findDirectMatches s ?em ?ph"
  from assms(1) have dist: "distinct (map cid (rows s))" by (simp add: uniqueIds_def)
  show ?thesis
  proof (cases "length ?dm = 0")
    case True
    show ?thesis
    proof (cases "createContact now s ?em ?ph None Primary")
      case (Inl e)
      with True assms(3) have "s' = s" by (simp add: identifyTx_def Let_def)
      with assms(1,2) show ?thesis by simp
    next
      case (Inr cs)
      then obtain c s1 where cr: "createContact now s ?em ?ph None Primary = Inr (c, s1)"
        by (cases cs) simp
      with True assms(3) have s': "s' = s1" by (simp add: identifyTx_def Let_def)
      have f: "flat (rows s1)" using cr assms(2) by (rule createContact_flat) simp
      have u: "uniqueIds s1" using cr assms(1) by (rule createContact_uniqueIds)
      from u have "distinct (map cid (rows s1))" by (simp add: uniqueIds_def)
      then have n: "noChain (rows s1)" using f by (rule flat_noChain)
      show ?thesis unfolding s'
      proof (intro exI conjI)
        show "journal s1 = journal s @ [rows s1]" by (rule createContact_props [OF cr])
        show "rows s1 = last (rows s # [rows s1])" by simp
        show "\<forall>rs \<in> set [rows s1]. flat rs \<and> noChain rs" using f n by simp
      qed (fact f u)+
    qed
  next
    case False
    let ?cl = "fetchCluster s (collectPrimaryIds [] ?dm)"
    obtain r1 s1 where lp: "demoteExtras now s (drop 1 (primariesOf ?cl)) (electPrimary ?cl) = (r1, s1)"
      by (cases "demoteExtras now s (drop 1 (primariesOf ?cl)) (electPrimary ?cl)")
    show ?thesis
    proof (cases "electPrimary ?cl")
      case None
      then have "primariesOf ?cl = []" by (simp add: electPrimary_def split: list.splits)
      with lp have "r1 = None" "s1 = s" by simp_all
      with False assms(3) lp None have "s' = s" by (simp add: identifyTx_def Let_def)
      moreover have "noChain (rows s)" using dist assms(2) by (rule flat_noChain)
      ultimately show ?thesis using assms(1,2) by simp
    next
      case (Some cp)
      have hp: "hasPrimary (rows s) (cid cp)" using Some by (rule elected_in_store)
      have nd: "cid cp \<notin> cid ` set (drop 1 (primariesOf ?cl))"
        using dist Some by (rule elected_not_demoted)
      from demoteExtras_flat [OF dist assms(2) hp nd lp [unfolded Some]]
      obtain js where js: "journal s1 = journal s @ js" "\<forall>rs \<in> set js. flat rs \<and> noChain rs"
        "flat (rows s1)" "hasPrimary (rows s1) (cid cp)"
        "map cid (rows s1) = map cid (rows s)" "nextId s1 = nextId s"
        by blast
      from demoteExtras_rows_last [OF lp] js(1) have last1: "rows s1 = last (rows s # js)"
        by auto
      have u1: "uniqueIds s1"
        using assms(1) unfolding uniqueIds_alt js(5,6) .
      show ?thesis
      proof (cases "r1 = None \<and> findExactMatch s1 ?em ?ph = None
          \<and> (\<exists>c s2. createContact now s1 ?em ?ph (Some (cid cp)) Secondary = Inr (c, s2))")
        case False
        with assms(3) lp Some \<open>length ?dm \<noteq> 0\<close> have "s' = s1"
          by (auto simp: identifyTx_def Let_def split: option.splits sum.splits if_splits)
        with js(1,2,3) last1 u1 show ?thesis by blast
      next
        case True
        then obtain c s2
          where cr: "createContact now s1 ?em ?ph (Some (cid cp)) Secondary = Inr (c, s2)"
          by blast
        with True assms(3) lp Some \<open>length ?dm \<noteq> 0\<close> have s': "s' = s2"
          by (simp add: identifyTx_def Let_def)
        have f: "flat (rows s2)" using cr js(3)
          by (rule createContact_flat) (simp add: js(4))
        have u: "uniqueIds s2" using cr u1 by (rule createContact_uniqueIds)
        from u have "distinct (map cid (rows s2))" by (simp add: uniqueIds_def)
        then have n: "noChain (rows s2)" using f by (rule flat_noChain)
        show ?thesis unfolding s'
        proof (intro exI conjI)
          show "journal s2 = journal s @ (js @ [rows s2])"
            using createContact_props(3) [OF cr] js(1) by simp
          show "rows s2 = last (rows s # (js @ [rows s2]))" by simp
          show "\<forall>rs \<in> set (js @ [rows s2]). flat rs \<and> noChain rs" using js(2) f n by simp
        qed (fact f u)+
      qed
    qed
  qed
qed

section \<open>The demotion loop in closed form\<close>

lemma mergedRow_empty [simp]: "mergedRow now {} c r = r"
  by (simp add: mergedRow_def)

lemma mergedRow_step:
  assumes "c \<noteq> d" "c \<notin> D"
  shows "mergedRow now D c
           ((\<lambda>r. if cid r = d
                  then r\<lparr>linkedId := Some c, linkPrecedence := Secondary, updatedAt := now\<rparr>
                  else r)
             ((\<lambda>r. if linkedId r = Some d \<and> deletedAt r = None
                    then r\<lparr>linkedId := Some c, updatedAt := now\<rparr> else r) r))
         = mergedRow now (insert d D) c r"
proof (cases "cid r = d")
  case True
  with assms show ?thesis by (auto simp: mergedRow_def)
next
  case nd: False
  show ?thesis
  proof (cases "linkedId r = Some d \<and> deletedAt r = None")
    case True
    with nd assms show ?thesis by (auto simp: mergedRow_def)
  next
    case False
    with nd assms show ?thesis by (auto simp: mergedRow_def)
  qed
qed

lemma demoteExtras_closed:
  assumes "cid cp \<notin> cid ` set ds" "demoteExtras now s ds (Some cp) = (None, s')"
  shows "rows s' = map (mergedRow now (cid ` set ds) (cid cp)) (rows s) \<and> nextId s' = nextId s"
  using assms
proof (induction ds arbitrary: s)
  case Nil
  then show ?case by simp
next
  case (Cons d ds)
  let ?s1 = "reparentSecondaries now s (cid d) (cid cp)"
  from Cons.prems(1) have ne: "cid cp \<noteq> cid d" and rest: "cid cp \<notin> cid ` set ds" by auto
  from Cons.prems(2) obtain s2 where s2: "demoteToSecondary now ?s1 (cid d) (cid cp) = Inr s2"
    and run: "demoteExtras now s2 ds (Some cp) = (None, s')"
    by (auto simp: Let_def split: sum.splits)
  from Cons.IH [OF rest run]
  have ih: "rows s' = map (mergedRow now (cid ` set ds) (cid cp)) (rows s2)" "nextId s' = nextId s2"
    by simp_all
  have "rows s' = map (mergedRow now (insert (cid d) (cid ` set ds)) (cid cp)) (rows s)"
    unfolding ih(1) rows_demoteToSecondary(1) [OF s2] rows_reparentSecondaries(1) map_map
    by (rule map_cong [OF refl]) (simp only: o_def mergedRow_step [OF ne rest])
  moreover have "nextId s' = nextId s"
    using ih(2) rows_demoteToSecondary(2) [OF s2] by (simp add: rows_reparentSecondaries(2))
  ultimately show ?case by simp
qed

lemma demoteExtras_succeeds:
  assumes "cid ` set ds \<subseteq> cid ` set (rows s)"
  shows "\<exists>s'. demoteExtras now s ds (Some cp) = (None, s')"
  using assms
proof (induction ds arbitrary: s)
  case Nil
  then show ?case by simp
next
  case (Cons d ds)
  let ?s1 = "reparentSecondaries now s (cid d) (cid cp)"
  have ids1: "cid ` set (rows ?s1) = cid ` set (rows s)"
    using reparent_keeps_ids [of now s "cid d" "cid cp"] by (metis set_map)
  with Cons.prems have "cid d \<in> cid ` set (rows ?s1)" by simp
  then have "list_ex (\<lambda>c. cid c = cid d) (rows ?s1)"
    unfolding list_ex_iff by force
  then have "\<exists>s2. demoteToSecondary now ?s1 (cid d) (cid cp) = Inr s2"
    by (simp add: demoteToSecondary_def)
  then obtain s2 where s2: "demoteToSecondary now ?s1 (cid d) (cid cp) = Inr s2" ..
  have "cid ` set (rows s2) = cid ` set (rows s)"
    using demote_keeps_ids [OF s2] ids1 by (metis set_map)
  with Cons.prems have "cid ` set ds \<subseteq> cid ` set (rows s2)" by simp
  from Cons.IH [OF this] obtain s' where "demoteExtras now s2 ds (Some cp) = (None, s')" by blast
  with s2 show ?case by (simp add: Let_def)
qed

section \<open>The merge, write by write\<close>

lemma rows_reparented:
  "rows (reparentSecondaries now s d c) = reparented now d c (rows s)"
  by (simp add: rows_reparentSecondaries reparented_def)

lemma rows_demoted:
  "demoteToSecondary now s d c = Inr s' \<Longrightarrow> rows s' = demoted now d c (rows s)"
  by (simp add: rows_demoteToSecondary demoted_def)

lemma demoteExtras_trace:
  assumes "demoteExtras now s ds (Some cp) = (None, s')"
  shows "journal s' = journal s @ mergeTrace now (rows s) (map cid ds) (cid cp)"
  using assms
proof (induction ds arbitrary: s)
  case Nil
  then show ?case by simp
next
  case (Cons d ds)
  let ?s1 = "reparentSecondaries now s (cid d) (cid cp)"
  from Cons.prems obtain s2 where s2: "demoteToSecondary now ?s1 (cid d) (cid cp) = Inr s2"
    and run: "demoteExtras now s2 ds (Some cp) = (None, s')"
    by (auto simp: Let_def split: sum.splits)
  have j1: "journal ?s1 = journal s @ [reparented now (cid d) (cid cp) (rows s)]"
    using rows_reparentSecondaries(3) [of now s "cid d" "cid cp"] by (simp add: rows_reparented)
  have r2: "rows s2 = demoted now (cid d) (cid cp) (reparented now (cid d) (cid cp) (rows s))"
    using rows_demoted [OF s2] by (simp add: rows_reparented)
  have j2: "journal s2 = journal s @ [reparented now (cid d) (cid cp) (rows s), rows s2]"
    using rows_demoteToSecondary(3) [OF s2] j1 by simp
  from Cons.IH [OF run] show ?case unfolding j2 by (simp add: r2)
qed

lemma livePrimary_map:
  assumes "livePrimary rs c"
    and "\<And>r. r \<in> set rs \<Longrightarrow> cid r = c \<Longrightarrow>
           cid (g r) = c \<and> linkPrecedence (g r) = linkPrecedence r \<and> deletedAt (g r) = deletedAt r"
  shows "livePrimary (map g rs) c"
proof -
  from assms(1) obtain p where p: "p \<in> set rs" "cid p = c" "linkPrecedence p = Primary"
      "deletedAt p = None" unfolding livePrimary_def by blast
  from assms(2) [OF p(1,2)] p(3,4)
  have "g p \<in> set (map g rs) \<and> cid (g p) = c \<and> linkPrecedence (g p) = Primary
      \<and> deletedAt (g p) = None" using p(1) by simp
  then show ?thesis unfolding livePrimary_def by blast
qed

lemma livePrimary_reparented:
  "livePrimary rs c \<Longrightarrow> livePrimary (reparented now d c' rs) c"
  unfolding reparented_def by (rule livePrimary_map) simp_all

lemma livePrimary_demoted:
  "livePrimary rs c \<Longrightarrow> d \<noteq> c \<Longrightarrow> livePrimary (demoted now d c' rs) c"
  unfolding demoted_def by (rule livePrimary_map) simp_all

lemma no_live_link_reparented:
  assumes "d \<noteq> c" "r \<in> set (reparented now d c rs)" "deletedAt r = None"
  shows "linkedId r \<noteq> Some d"
  using assms unfolding reparented_def by (auto split: if_splits)

lemma clusterFlat_reparented:
  assumes cf: "clusterFlat K rs" and lp: "livePrimary rs c"
  shows "clusterFlat K (reparented now d c rs)"
  unfolding clusterFlat_def
proof (intro ballI impI)
  let ?g = "\<lambda>r. if linkedId r = Some d \<and> deletedAt r = None
               then r\<lparr>linkedId := Some c, updatedAt := now\<rparr> else r"
  have keep: "cid (?g p) = cid p" "linkPrecedence (?g p) = linkPrecedence p"
    "deletedAt (?g p) = deletedAt p" for p :: Contact by simp_all
  fix r' k assume "r' \<in> set (reparented now d c rs)"
    and live: "deletedAt r' = None \<and> linkPrecedence r' = Secondary"
    and k: "k \<in> K" and link: "linkedId r' = Some k"
  then obtain r where r: "r \<in> set rs" "r' = ?g r" unfolding reparented_def by auto
  have "\<exists>p \<in> set rs. cid p = k \<and> linkPrecedence p = Primary \<and> deletedAt p = None"
  proof (cases "linkedId r = Some d \<and> deletedAt r = None")
    case True
    with r(2) link have "k = c" by simp
    with lp show ?thesis unfolding livePrimary_def by blast
  next
    case False
    then have "?g r = r" by (rule if_not_P)
    with r live link k cf show ?thesis unfolding clusterFlat_def by auto
  qed
  then obtain p where p: "p \<in> set rs" "cid p = k" "linkPrecedence p = Primary" "deletedAt p = None"
    by blast
  then have "?g p \<in> set (reparented now d c rs)" unfolding reparented_def by simp
  with p(2,3,4) keep [of p]
  show "\<exists>p \<in> set (reparented now d c rs). cid p = k \<and> linkPrecedence p = Primary \<and> deletedAt p = None"
    by metis
qed

lemma clusterFlat_demoted:
  assumes cf: "clusterFlat K rs" and lp: "livePrimary rs c" and ne: "d \<noteq> c"
    and nolink: "\<And>r. r \<in> set rs \<Longrightarrow> deletedAt r = None \<Longrightarrow> linkedId r \<noteq> Some d"
  shows "clusterFlat K (demoted now d c rs)"
  unfolding clusterFlat_def
proof (intro ballI impI)
  let ?g = "\<lambda>r. if cid r = d
               then r\<lparr>linkedId := Some c, linkPrecedence := Secondary, updatedAt := now\<rparr>
               else r"
  fix r' k assume "r' \<in> set (demoted now d c rs)"
    and live: "deletedAt r' = None \<and> linkPrecedence r' = Secondary"
    and k: "k \<in> K" and link: "linkedId r' = Some k"
  then obtain r where r: "r \<in> set rs" "r' = ?g r" unfolding demoted_def by auto
  have "\<exists>p \<in> set rs. cid p = k \<and> cid p \<noteq> d \<and> linkPrecedence p = Primary \<and> deletedAt p = None"
  proof (cases "cid r = d")
    case True
    with r(2) link have "k = c" by simp
    with lp ne show ?thesis unfolding livePrimary_def by auto
  next
    case False
    then have g: "?g r = r" by simp
    from live r(2) have rl: "deletedAt r = None" unfolding g by simp
    from nolink [OF r(1) rl] link r(2) have "k \<noteq> d" unfolding g by auto
    moreover from r live link k cf
    have "\<exists>p \<in> set rs. cid p = k \<and> linkPrecedence p = Primary \<and> deletedAt p = None"
      unfolding g clusterFlat_def by auto
    ultimately show ?thesis by auto
  qed
  then obtain p where p: "p \<in> set rs" "cid p = k" "cid p \<noteq> d" "linkPrecedence p = Primary"
      "deletedAt p = None" by blast
  then have "?g p = p" by simp
  with p(1) have "p \<in> set (demoted now d c rs)" unfolding demoted_def by force
  with p(2,4,5)
  show "\<exists>p \<in> set (demoted now d c rs). cid p = k \<and> linkPrecedence p = Primary \<and> deletedAt p = None"
    by blast
qed

lemma mergeTrace_clusterFlat:
  assumes "clusterFlat K rs" "livePrimary rs c" "c \<notin> set ds"
  shows "\<forall>x \<in> set (mergeTrace now rs ds c). clusterFlat K x"
  using assms
proof (induction ds arbitrary: rs)
  case Nil
  then show ?case by simp
next
  case (Cons d ds)
  from Cons.prems(3) have ne: "d \<noteq> c" and rest: "c \<notin> set ds" by auto
  let ?r1 = "reparented now d c rs"
  let ?r2 = "demoted now d c ?r1"
  have c1: "clusterFlat K ?r1" using Cons.prems(1,2) by (rule clusterFlat_reparented)
  have l1: "livePrimary ?r1 c" using Cons.prems(2) by (rule livePrimary_reparented)
  have c2: "clusterFlat K ?r2"
    using c1 l1 ne
  proof (rule clusterFlat_demoted)
    fix r assume "r \<in> set ?r1" "deletedAt r = None"
    with ne show "linkedId r \<noteq> Some d" by (rule no_live_link_reparented)
  qed
  have l2: "livePrimary ?r2 c" using l1 ne by (rule livePrimary_demoted)
  from Cons.IH [OF c2 l2 rest] c1 c2 show ?case by simp
qed

lemma clusterFlat_initial:
  "clusterFlat (cid ` set (primariesOf (fetchCluster s ids))) (rows s)"
  unfolding clusterFlat_def
proof (intro ballI impI)
  fix r k assume "k \<in> cid ` set (primariesOf (fetchCluster s ids))"
  then obtain q where "q \<in> set (primariesOf (fetchCluster s ids))" "cid q = k" by auto
  then have "q \<in> set (rows s) \<and> cid q = k \<and> linkPrecedence q = Primary \<and> deletedAt q = None"
    by (simp add: fetchCluster_def)
  then show "\<exists>p \<in> set (rows s). cid p = k \<and> linkPrecedence p = Primary \<and> deletedAt p = None"
    by blast
qed

lemma drop1_subset_rows:
  "cid ` set (drop 1 (primariesOf (fetchCluster s ids))) \<subseteq> cid ` set (rows s)"
proof -
  have "set (drop 1 (primariesOf (fetchCluster s ids))) \<subseteq> set (primariesOf (fetchCluster s ids))"
    by (rule set_drop_subset)
  also have "\<dots> \<subseteq> set (rows s)" by (auto simp: fetchCluster_def)
  finally show ?thesis by blast
qed

text \<open>The match branch, once the loop has gone through.\<close>

lemma identifyTx_match:
  assumes "findDirectMatches s (email_in inp) (phoneNumber_in inp) \<noteq> []"
    and "electPrimary (fetchCluster s (collectPrimaryIds []
           (findDirectMatches s (email_in inp) (phoneNumber_in inp)))) = Some cp"
    and "demoteExtras now s (drop 1 (primariesOf (fetchCluster s (collectPrimaryIds []
           (findDirectMatches s (email_in inp) (phoneNumber_in inp)))))) (Some cp) = (None, s1)"
  shows "identifyTx now inp s =
     (if findExactMatch s1 (email_in inp) (phoneNumber_in inp) \<noteq> None
      then (formatResponse (fetchFinalCluster s1 (cid cp)), s1)
      else (case createContact now s1 (email_in inp) (phoneNumber_in inp) (Some (cid cp)) Secondary of
              Inl e \<Rightarrow> (Inl e, s1)
            | Inr (newContact, s2) \<Rightarrow> (formatResponse (fetchFinalCluster s2 (cid cp)), s2)))"
  using assms by (simp add: identifyTx_def Let_def)

lemma mergedRow_cid: "cid (mergedRow now D c r) = cid r"
  by (simp add: mergedRow_def)

lemma mergedRow_demoted:
  "cid r \<in> D \<Longrightarrow> linkPrecedence (mergedRow now D c r) = Secondary
     \<and> linkedId (mergedRow now D c r) = Some c \<and> cid (mergedRow now D c r) = cid r"
  by (simp add: mergedRow_def)

lemma mergedRow_no_link:
  assumes "c \<notin> D" "deletedAt (mergedRow now D c r) = None" "d \<in> D"
  shows "linkedId (mergedRow now D c r) \<noteq> Some d"
  using assms by (auto simp: mergedRow_def split: if_splits)

lemma livePrimary_merged:
  assumes "livePrimary rs c" "c \<notin> D"
  shows "livePrimary (map (mergedRow now D c') rs) c"
  using assms(1) by (rule livePrimary_map) (simp add: mergedRow_def assms(2))

text \<open>What the match branch does to the table, write by write and in the end.\<close>

lemma identifyTx_merge:
  fixes s :: Store and inp :: IdentifyInput and now :: int
  defines "cl \<equiv> fetchCluster s (collectPrimaryIds []
                  (findDirectMatches s (email_in inp) (phoneNumber_in inp)))"
  defines "ds \<equiv> map cid (drop 1 (primariesOf cl))"
  defines "s' \<equiv> snd (identifyTx now inp s)"
  assumes u: "uniqueIds s"
    and dm: "findDirectMatches s (email_in inp) (phoneNumber_in inp) \<noteq> []"
    and el: "electPrimary cl = Some cp"
  shows "\<exists>rest. journal s' = journal s @ mergeTrace now (rows s) ds (cid cp) @ rest
                 \<and> length rest \<le> 1"
    and "\<forall>rs \<in> set (mergeTrace now (rows s) ds (cid cp)). clusterFlat (insert (cid cp) (set ds)) rs"
    and "\<forall>r \<in> set (rows s'). cid r \<in> set ds \<longrightarrow>
           linkPrecedence r = Secondary \<and> linkedId r = Some (cid cp)"
    and "\<forall>r \<in> set (rows s'). deletedAt r = None \<longrightarrow> (\<forall>d \<in> set ds. linkedId r \<noteq> Some d)"
    and "livePrimary (rows s') (cid cp)"
proof -
  let ?em = "email_in inp" and ?ph = "phoneNumber_in inp"
  let ?D = "cid ` set (drop 1 (primariesOf cl))"
  let ?M = "mergedRow now ?D (cid cp)"
  from u have dist: "distinct (map cid (rows s))" by (simp add: uniqueIds_def)
  have D: "set ds = ?D" by (simp add: ds_def)
  from demoteExtras_succeeds [OF drop1_subset_rows] obtain s1
    where lp: "demoteExtras now s (drop 1 (primariesOf cl)) (Some cp) = (None, s1)"
    unfolding cl_def by blast
  have nd: "cid cp \<notin> ?D"
    using elected_not_demoted [OF dist el [unfolded cl_def]] by (simp add: cl_def)
  from demoteExtras_closed [OF nd lp]
  have r1: "rows s1 = map ?M (rows s)" and n1: "nextId s1 = nextId s" by simp_all
  have j1: "journal s1 = journal s @ mergeTrace now (rows s) ds (cid cp)"
    using demoteExtras_trace [OF lp] by (simp add: ds_def)
  have lp0: "livePrimary (rows s) (cid cp)"
    using elected_in_store(1,2,3) [OF el [unfolded cl_def]] unfolding livePrimary_def by blast
  have l1: "livePrimary (rows s1) (cid cp)" unfolding r1 using lp0 nd by (rule livePrimary_merged)
  from el obtain ps where ps: "primariesOf cl = cp # ps"
    by (auto simp: electPrimary_def split: list.splits)
  then have K: "insert (cid cp) (set ds) = cid ` set (primariesOf cl)" by (simp add: ds_def)
  show "\<forall>rs \<in> set (mergeTrace now (rows s) ds (cid cp)). clusterFlat (insert (cid cp) (set ds)) rs"
    unfolding K
  proof (rule mergeTrace_clusterFlat)
    show "clusterFlat (cid ` set (primariesOf cl)) (rows s)"
      unfolding cl_def by (rule clusterFlat_initial)
    show "livePrimary (rows s) (cid cp)" by (rule lp0)
    show "cid cp \<notin> set ds" using nd by (simp add: D)
  qed
  have tx: "identifyTx now inp s =
     (if findExactMatch s1 ?em ?ph \<noteq> None
      then (formatResponse (fetchFinalCluster s1 (cid cp)), s1)
      else (case createContact now s1 ?em ?ph (Some (cid cp)) Secondary of
              Inl e \<Rightarrow> (Inl e, s1)
            | Inr (newContact, s2) \<Rightarrow> (formatResponse (fetchFinalCluster s2 (cid cp)), s2)))"
    using identifyTx_match [OF dm el [unfolded cl_def] lp [unfolded cl_def]] .
  have cases: "s' = s1 \<or> (\<exists>c s2. createContact now s1 ?em ?ph (Some (cid cp)) Secondary = Inr (c, s2)
      \<and> s' = s2)"
    unfolding s'_def tx by (auto split: sum.splits)
  have ids_below: "i < nextId s" if "i \<in> ?D" for i
  proof -
    from that drop1_subset_rows [of s] have "i \<in> cid ` set (rows s)" unfolding cl_def by blast
    with u show ?thesis by (auto simp: uniqueIds_def)
  qed
  have old_rows: "linkPrecedence r = Secondary \<and> linkedId r = Some (cid cp)"
    if "r \<in> set (rows s1)" "cid r \<in> ?D" for r
  proof -
    from that(1) obtain r0 where r0: "r0 \<in> set (rows s)" "r = ?M r0" unfolding r1 by auto
    with that(2) have "cid r0 \<in> ?D" by (simp only: mergedRow_cid)
    from mergedRow_demoted [OF this] r0(2) show ?thesis by simp
  qed
  have old_links: "linkedId r \<noteq> Some d"
    if "r \<in> set (rows s1)" "deletedAt r = None" "d \<in> ?D" for r d
  proof -
    from that(1) obtain r0 where r0: "r0 \<in> set (rows s)" "r = ?M r0" unfolding r1 by auto
    from mergedRow_no_link [OF nd that(2) [unfolded r0(2)] that(3)] show ?thesis
      unfolding r0(2) .
  qed
  from cases show "\<exists>rest. journal s' = journal s @ mergeTrace now (rows s) ds (cid cp) @ rest
                 \<and> length rest \<le> 1"
  proof
    assume "s' = s1"
    with j1 have "journal s' = journal s @ mergeTrace now (rows s) ds (cid cp) @ []
        \<and> length ([] :: Contact list list) \<le> 1" by simp
    then show ?thesis by blast
  next
    assume "\<exists>c s2. createContact now s1 ?em ?ph (Some (cid cp)) Secondary = Inr (c, s2) \<and> s' = s2"
    then obtain c s2 where cr: "createContact now s1 ?em ?ph (Some (cid cp)) Secondary = Inr (c, s2)"
      and s2: "s' = s2" by blast
    from createContact_props(3) [OF cr] j1 s2
    have "journal s' = journal s @ mergeTrace now (rows s) ds (cid cp) @ [rows s2]
        \<and> length [rows s2] \<le> 1" by simp
    then show ?thesis by blast
  qed
  from cases show "\<forall>r \<in> set (rows s'). cid r \<in> set ds \<longrightarrow>
           linkPrecedence r = Secondary \<and> linkedId r = Some (cid cp)"
  proof
    assume "s' = s1"
    with old_rows show ?thesis unfolding D by blast
  next
    assume "\<exists>c s2. createContact now s1 ?em ?ph (Some (cid cp)) Secondary = Inr (c, s2) \<and> s' = s2"
    then obtain c s2 where cr: "createContact now s1 ?em ?ph (Some (cid cp)) Secondary = Inr (c, s2)"
      and s2: "s' = s2" by blast
    have "cid c \<notin> ?D" using ids_below [of "cid c"] createContact_props(4) [OF cr] n1 by auto
    with old_rows show ?thesis
      unfolding D s2 createContact_props(1) [OF cr] by auto
  qed
  from cases show "\<forall>r \<in> set (rows s'). deletedAt r = None \<longrightarrow> (\<forall>d \<in> set ds. linkedId r \<noteq> Some d)"
  proof
    assume "s' = s1"
    with old_links show ?thesis unfolding D by blast
  next
    assume "\<exists>c s2. createContact now s1 ?em ?ph (Some (cid cp)) Secondary = Inr (c, s2) \<and> s' = s2"
    then obtain c s2 where cr: "createContact now s1 ?em ?ph (Some (cid cp)) Secondary = Inr (c, s2)"
      and s2: "s' = s2" by blast
    have "linkedId c \<noteq> Some d" if "d \<in> ?D" for d
      using that nd createContact_props(6) [OF cr] by auto
    with old_links show ?thesis
      unfolding D s2 createContact_props(1) [OF cr] by auto
  qed
  from cases show "livePrimary (rows s') (cid cp)"
  proof
    assume "s' = s1"
    with l1 show ?thesis by simp
  next
    assume "\<exists>c s2. createContact now s1 ?em ?ph (Some (cid cp)) Secondary = Inr (c, s2) \<and> s' = s2"
    then obtain c s2 where cr: "createContact now s1 ?em ?ph (Some (cid cp)) Secondary = Inr (c, s2)"
      and s2: "s' = s2" by blast
    from l1 show ?thesis
      unfolding s2 createContact_props(1) [OF cr] livePrimary_def by auto
  qed
qed

text \<open>
  Claim C1. Let the ids of the store be unique and the store be flat.

  First part, every request: the transaction body extends the journal by one snapshot per
  write, the rows it leaves are the last snapshot, every snapshot is flat and free of
  secondaries that link to a secondary, and the state it leaves is flat with unique ids
  again, so the same holds along any sequence of requests.

  Second part, a request that matches and elects a canonical primary: the journal grows
  by exactly the writes of section 4.4 in their order, for each superseded primary first
  the re-parenting of the non-deleted rows that link to it and only then its demotion,
  followed by at most one insert. After each of these writes every non-deleted secondary
  that links to a primary of the merging cluster links to a row that is a primary at that
  moment and not deleted. In the end every superseded primary is a secondary of the
  canonical primary, no non-deleted row links to a superseded primary any more, and the
  canonical primary is still a primary.

  Third part, the loop alone with the superseded contacts in any order: its writes are
  the same trace and leave a flat store after each of them.

  Deleted rows are left out: they belong to no cluster and the re-parenting write skips
  them.
\<close>

theorem identify_flat_after_every_write:
  fixes s :: Store and inp :: IdentifyInput and now :: int
  defines "s' \<equiv> snd (identifyTx now inp s)"
  defines "cl \<equiv> fetchCluster s (collectPrimaryIds []
                  (findDirectMatches s (email_in inp) (phoneNumber_in inp)))"
  defines "ds \<equiv> map cid (drop 1 (primariesOf cl))"
  assumes "uniqueIds s" and "flat (rows s)"
  shows "(\<exists>js. journal s' = journal s @ js \<and> rows s' = last (rows s # js)
            \<and> (\<forall>rs \<in> set js. flat rs \<and> noChain rs)
            \<and> flat (rows s') \<and> uniqueIds s')
         \<and> (findDirectMatches s (email_in inp) (phoneNumber_in inp) \<noteq> []
              \<and> electPrimary cl = Some cp \<longrightarrow>
              (\<exists>rest. journal s' = journal s @ mergeTrace now (rows s) ds (cid cp) @ rest
                       \<and> length rest \<le> 1)
              \<and> (\<forall>rs \<in> set (mergeTrace now (rows s) ds (cid cp)).
                    clusterFlat (insert (cid cp) (set ds)) rs)
              \<and> (\<forall>r \<in> set (rows s'). cid r \<in> set ds \<longrightarrow>
                    linkPrecedence r = Secondary \<and> linkedId r = Some (cid cp))
              \<and> (\<forall>r \<in> set (rows s'). deletedAt r = None \<longrightarrow>
                    (\<forall>d \<in> set ds. linkedId r \<noteq> Some d))
              \<and> livePrimary (rows s') (cid cp))
         \<and> (hasPrimary (rows s) (cid canon) \<and> cid canon \<notin> cid ` set ps \<longrightarrow>
              (\<exists>js. journal (snd (demoteExtras now s ps (Some canon))) = journal s @ js
                 \<and> (\<forall>rs \<in> set js. flat rs \<and> noChain rs)
                 \<and> flat (rows (snd (demoteExtras now s ps (Some canon))))
                 \<and> (fst (demoteExtras now s ps (Some canon)) = None \<longrightarrow>
                      js = mergeTrace now (rows s) (map cid ps) (cid canon))))"
proof (intro conjI impI)
  show "\<exists>js. journal s' = journal s @ js \<and> rows s' = last (rows s # js)
            \<and> (\<forall>rs \<in> set js. flat rs \<and> noChain rs)
            \<and> flat (rows s') \<and> uniqueIds s'"
    unfolding s'_def
    using identifyTx_flat [OF assms(4,5), of now inp "fst (identifyTx now inp s)"
        "snd (identifyTx now inp s)"]
    by simp
next
  assume h: "findDirectMatches s (email_in inp) (phoneNumber_in inp) \<noteq> []
      \<and> electPrimary cl = Some cp"
  then have dm: "findDirectMatches s (email_in inp) (phoneNumber_in inp) \<noteq> []"
    and el: "electPrimary (fetchCluster s (collectPrimaryIds []
                  (findDirectMatches s (email_in inp) (phoneNumber_in inp)))) = Some cp"
    by (simp_all add: cl_def)
  note m = identifyTx_merge [OF assms(4) dm el, of now]
  show "\<exists>rest. journal s' = journal s @ mergeTrace now (rows s) ds (cid cp) @ rest
                       \<and> length rest \<le> 1"
    unfolding s'_def ds_def cl_def by (rule m(1))
  show "\<forall>rs \<in> set (mergeTrace now (rows s) ds (cid cp)).
                    clusterFlat (insert (cid cp) (set ds)) rs"
    unfolding s'_def ds_def cl_def by (rule m(2))
  show "\<forall>r \<in> set (rows s'). cid r \<in> set ds \<longrightarrow>
                    linkPrecedence r = Secondary \<and> linkedId r = Some (cid cp)"
    unfolding s'_def ds_def cl_def by (rule m(3))
  show "\<forall>r \<in> set (rows s'). deletedAt r = None \<longrightarrow>
                    (\<forall>d \<in> set ds. linkedId r \<noteq> Some d)"
    unfolding s'_def ds_def cl_def by (rule m(4))
  show "livePrimary (rows s') (cid cp)"
    unfolding s'_def by (rule m(5))
next
  assume h: "hasPrimary (rows s) (cid canon) \<and> cid canon \<notin> cid ` set ps"
  from assms(4) have dist: "distinct (map cid (rows s))" by (simp add: uniqueIds_def)
  obtain res t where run: "demoteExtras now s ps (Some canon) = (res, t)"
    by (cases "demoteExtras now s ps (Some canon)")
  from demoteExtras_flat [OF dist assms(5) _ _ run] h
  obtain js where js: "journal t = journal s @ js" "\<forall>rs \<in> set js. flat rs \<and> noChain rs"
    "flat (rows t)" by blast
  have "js = mergeTrace now (rows s) (map cid ps) (cid canon)" if "res = None"
    using demoteExtras_trace [OF run [unfolded that]] js(1) by simp
  with js show "\<exists>js. journal (snd (demoteExtras now s ps (Some canon))) = journal s @ js
                 \<and> (\<forall>rs \<in> set js. flat rs \<and> noChain rs)
                 \<and> flat (rows (snd (demoteExtras now s ps (Some canon))))
                 \<and> (fst (demoteExtras now s ps (Some canon)) = None \<longrightarrow>
                      js = mergeTrace now (rows s) (map cid ps) (cid canon))"
    unfolding run by auto
qed

lemma mergeStore_run:
  "journal (snd (identifyTx 300 \<lparr>email_in = Some ''e1'', phoneNumber_in = Some ''p2''\<rparr> mergeStore))
     = [[contact 1 (Some ''e1'') (Some ''p1'') None Primary 100,
         contact 2 (Some ''e2'') (Some ''p2'') None Primary 200,
         (contact 3 (Some ''e3'') (Some ''p2'') (Some 1) Secondary 250)\<lparr>updatedAt := 300\<rparr>],
        [contact 1 (Some ''e1'') (Some ''p1'') None Primary 100,
         (contact 2 (Some ''e2'') (Some ''p2'') (Some 1) Secondary 200)\<lparr>updatedAt := 300\<rparr>,
         (contact 3 (Some ''e3'') (Some ''p2'') (Some 1) Secondary 250)\<lparr>updatedAt := 300\<rparr>],
        [contact 1 (Some ''e1'') (Some ''p1'') None Primary 100,
         (contact 2 (Some ''e2'') (Some ''p2'') (Some 1) Secondary 200)\<lparr>updatedAt := 300\<rparr>,
         (contact 3 (Some ''e3'') (Some ''p2'') (Some 1) Secondary 250)\<lparr>updatedAt := 300\<rparr>,
         contact 4 (Some ''e1'') (Some ''p2'') (Some 1) Secondary 300]]"
  by (simp add: mergeStore_def eval_defs)

lemma mergeStore_trace:
  "mergeTrace 300 (rows mergeStore) [2] 1
     = [[contact 1 (Some ''e1'') (Some ''p1'') None Primary 100,
         contact 2 (Some ''e2'') (Some ''p2'') None Primary 200,
         (contact 3 (Some ''e3'') (Some ''p2'') (Some 1) Secondary 250)\<lparr>updatedAt := 300\<rparr>],
        [contact 1 (Some ''e1'') (Some ''p1'') None Primary 100,
         (contact 2 (Some ''e2'') (Some ''p2'') (Some 1) Secondary 200)\<lparr>updatedAt := 300\<rparr>,
         (contact 3 (Some ''e3'') (Some ''p2'') (Some 1) Secondary 250)\<lparr>updatedAt := 300\<rparr>]]"
  by (simp add: mergeStore_def reparented_def demoted_def contact_def)

lemma mergeStore_elect:
  "findDirectMatches mergeStore (email_in \<lparr>email_in = Some ''e1'', phoneNumber_in = Some ''p2''\<rparr>)
      (phoneNumber_in \<lparr>email_in = Some ''e1'', phoneNumber_in = Some ''p2''\<rparr>) \<noteq> []
   \<and> electPrimary (fetchCluster mergeStore (collectPrimaryIds []
        (findDirectMatches mergeStore (email_in \<lparr>email_in = Some ''e1'', phoneNumber_in = Some ''p2''\<rparr>)
           (phoneNumber_in \<lparr>email_in = Some ''e1'', phoneNumber_in = Some ''p2''\<rparr>))))
       = Some (contact 1 (Some ''e1'') (Some ''p1'') None Primary 100)"
  by (simp add: mergeStore_def eval_defs)

theorem identify_flat_after_every_write_witness:
  "uniqueIds mergeStore \<and> flat (rows mergeStore)
   \<and> journal (snd (identifyTx 300 \<lparr>email_in = Some ''e1'', phoneNumber_in = Some ''p2''\<rparr> mergeStore))
     = [[contact 1 (Some ''e1'') (Some ''p1'') None Primary 100,
         contact 2 (Some ''e2'') (Some ''p2'') None Primary 200,
         (contact 3 (Some ''e3'') (Some ''p2'') (Some 1) Secondary 250)\<lparr>updatedAt := 300\<rparr>],
        [contact 1 (Some ''e1'') (Some ''p1'') None Primary 100,
         (contact 2 (Some ''e2'') (Some ''p2'') (Some 1) Secondary 200)\<lparr>updatedAt := 300\<rparr>,
         (contact 3 (Some ''e3'') (Some ''p2'') (Some 1) Secondary 250)\<lparr>updatedAt := 300\<rparr>],
        [contact 1 (Some ''e1'') (Some ''p1'') None Primary 100,
         (contact 2 (Some ''e2'') (Some ''p2'') (Some 1) Secondary 200)\<lparr>updatedAt := 300\<rparr>,
         (contact 3 (Some ''e3'') (Some ''p2'') (Some 1) Secondary 250)\<lparr>updatedAt := 300\<rparr>,
         contact 4 (Some ''e1'') (Some ''p2'') (Some 1) Secondary 300]]
   \<and> electPrimary (fetchCluster mergeStore (collectPrimaryIds []
        (findDirectMatches mergeStore (Some ''e1'') (Some ''p2''))))
       = Some (contact 1 (Some ''e1'') (Some ''p1'') None Primary 100)
   \<and> livePrimary (rows (snd (identifyTx 300
         \<lparr>email_in = Some ''e1'', phoneNumber_in = Some ''p2''\<rparr> mergeStore))) 1
   \<and> flat (rows (snd (identifyTx 300
         \<lparr>email_in = Some ''e1'', phoneNumber_in = Some ''p2''\<rparr> mergeStore)))
   \<and> journal (snd (demoteExtras 300 mergeStore
         [contact 2 (Some ''e2'') (Some ''p2'') None Primary 200]
         (Some (contact 1 (Some ''e1'') (Some ''p1'') None Primary 100))))
       = mergeTrace 300 (rows mergeStore) [2] 1"
proof -
  have u: "uniqueIds mergeStore"
    by (simp add: uniqueIds_def mergeStore_def contact_def)
  have f: "flat (rows mergeStore)"
    by (simp add: flat_def mergeStore_def contact_def)
  note t = identify_flat_after_every_write [OF u f, where now = 300
      and inp = "\<lparr>email_in = Some ''e1'', phoneNumber_in = Some ''p2''\<rparr>"
      and cp = "contact 1 (Some ''e1'') (Some ''p1'') None Primary 100"]
  from t mergeStore_elect
  have "livePrimary (rows (snd (identifyTx 300
         \<lparr>email_in = Some ''e1'', phoneNumber_in = Some ''p2''\<rparr> mergeStore)))
         (cid (contact 1 (Some ''e1'') (Some ''p1'') None Primary 100))"
    by blast
  then have l: "livePrimary (rows (snd (identifyTx 300
         \<lparr>email_in = Some ''e1'', phoneNumber_in = Some ''p2''\<rparr> mergeStore))) 1"
    by (simp add: contact_def)
  from t have fl: "flat (rows (snd (identifyTx 300
         \<lparr>email_in = Some ''e1'', phoneNumber_in = Some ''p2''\<rparr> mergeStore)))"
    by blast
  from mergeStore_elect have e: "electPrimary (fetchCluster mergeStore (collectPrimaryIds []
        (findDirectMatches mergeStore (Some ''e1'') (Some ''p2''))))
       = Some (contact 1 (Some ''e1'') (Some ''p1'') None Primary 100)"
    by simp
  have h: "hasPrimary (rows mergeStore) (cid (contact 1 (Some ''e1'') (Some ''p1'') None Primary 100))
      \<and> cid (contact 1 (Some ''e1'') (Some ''p1'') None Primary 100)
          \<notin> cid ` set [contact 2 (Some ''e2'') (Some ''p2'') None Primary 200]"
    by (simp add: hasPrimary_def mergeStore_def contact_def)
  have r: "fst (demoteExtras 300 mergeStore
         [contact 2 (Some ''e2'') (Some ''p2'') None Primary 200]
         (Some (contact 1 (Some ''e1'') (Some ''p1'') None Primary 100))) = None"
    by (simp add: mergeStore_def eval_defs)
  from t [where canon = "contact 1 (Some ''e1'') (Some ''p1'') None Primary 100"
      and ps = "[contact 2 (Some ''e2'') (Some ''p2'') None Primary 200]"] h r
  have "journal (snd (demoteExtras 300 mergeStore
         [contact 2 (Some ''e2'') (Some ''p2'') None Primary 200]
         (Some (contact 1 (Some ''e1'') (Some ''p1'') None Primary 100))))
       = journal mergeStore @ mergeTrace 300 (rows mergeStore)
           (map cid [contact 2 (Some ''e2'') (Some ''p2'') None Primary 200])
           (cid (contact 1 (Some ''e1'') (Some ''p1'') None Primary 100))"
    by blast
  then have d: "journal (snd (demoteExtras 300 mergeStore
         [contact 2 (Some ''e2'') (Some ''p2'') None Primary 200]
         (Some (contact 1 (Some ''e1'') (Some ''p1'') None Primary 100))))
       = mergeTrace 300 (rows mergeStore) [2] 1"
    by (simp add: contact_def mergeStore_def)
  from u f mergeStore_run e l fl d show ?thesis by blast
qed

section \<open>The unguarded read of the elected primary\<close>

lemma set_collectPrimaryIds:
  "set (collectPrimaryIds acc cs) = set acc \<union> {i. \<exists>c \<in> set cs. primaryIdOf c = Some i}"
proof (induction cs arbitrary: acc)
  case Nil
  then show ?case by simp
next
  case (Cons c cs)
  have "set (if linkPrecedence c = Primary then setAdd acc (cid c)
             else (case linkedId c of Some l \<Rightarrow> setAdd acc l | None \<Rightarrow> acc))
        = set acc \<union> {i. primaryIdOf c = Some i}"
    by (auto simp: setAdd_def primaryIdOf_def split: option.splits)
  then show ?case unfolding collectPrimaryIds.simps Cons.IH by auto
qed

lemma set_fetchCluster:
  "set (fetchCluster s ids) =
     {c \<in> set (rows s). deletedAt c = None
        \<and> (cid c \<in> set ids \<or> (\<exists>l \<in> set ids. linkedId c = Some l))}"
  by (auto simp: fetchCluster_def split: option.splits)

lemma findDirectMatches_absent:
  "\<not> truthy em \<Longrightarrow> \<not> truthy ph \<Longrightarrow> findDirectMatches s em ph = []"
  by (simp add: findDirectMatches_def)

lemma directMatch_in_rows:
  "m \<in> set (findDirectMatches s em ph) \<Longrightarrow> m \<in> set (rows s) \<and> deletedAt m = None"
  by (simp add: findDirectMatches_eq directMatch_def)

lemma formatResponse_ok:
  assumes "p \<in> set cluster" "linkPrecedence p = Primary"
  shows "\<exists>r. formatResponse cluster = Inr r"
proof -
  from assms have "find (\<lambda>c. linkPrecedence c = Primary) cluster \<noteq> None"
    unfolding find_None_iff by blast
  then show ?thesis by (auto simp: formatResponse_def Let_def)
qed

lemma set_fetchFinalCluster:
  "set (fetchFinalCluster s k) =
     {c \<in> set (rows s). deletedAt c = None \<and> (cid c = k \<or> linkedId c = Some k)}"
  by (auto simp: fetchFinalCluster_def)

lemma mergedRow_keeps:
  "cid (mergedRow now D c r) = cid r" "deletedAt (mergedRow now D c r) = deletedAt r"
  "email (mergedRow now D c r) = email r" "phoneNumber (mergedRow now D c r) = phoneNumber r"
  "createdAt (mergedRow now D c r) = createdAt r"
  "cid r \<notin> D \<Longrightarrow> linkPrecedence (mergedRow now D c r) = linkPrecedence r"
  by (simp_all add: mergedRow_def)

lemma elected_after_merge:
  assumes "electPrimary (fetchCluster s ids) = Some cp"
    and "cid cp \<notin> D" "rows s1 = map (mergedRow now D (cid cp)) (rows s)"
  shows "\<exists>p \<in> set (fetchFinalCluster s1 (cid cp)). linkPrecedence p = Primary"
proof -
  let ?p = "mergedRow now D (cid cp) cp"
  from elected_in_store(1,2,3) [OF assms(1)] assms(3)
  have "?p \<in> set (rows s1)" "deletedAt ?p = None" "cid ?p = cid cp" "linkPrecedence ?p = Primary"
    by (simp_all add: mergedRow_keeps assms(2))
  then show ?thesis unfolding set_fetchFinalCluster by blast
qed

lemma identifyTx_no_primary:
  assumes "findDirectMatches s (email_in inp) (phoneNumber_in inp) \<noteq> []"
    and "electPrimary (fetchCluster s (collectPrimaryIds []
           (findDirectMatches s (email_in inp) (phoneNumber_in inp)))) = None"
  shows "identifyTx now inp s = (Inl TypeError, s)"
proof -
  from assms(2) have "primariesOf (fetchCluster s (collectPrimaryIds []
           (findDirectMatches s (email_in inp) (phoneNumber_in inp)))) = []"
    by (simp add: electPrimary_def split: list.splits)
  with assms show ?thesis by (simp add: identifyTx_def Let_def)
qed

lemma elect_exists:
  assumes "everySecondaryHasLivePrimary s" "findDirectMatches s em ph \<noteq> []"
  shows "electPrimary (fetchCluster s (collectPrimaryIds [] (findDirectMatches s em ph))) \<noteq> None"
proof -
  from assms(2) obtain m where m: "m \<in> set (findDirectMatches s em ph)"
    by (cases "findDirectMatches s em ph") auto
  note mr = directMatch_in_rows [OF m]
  have "\<exists>p \<in> set (rows s). deletedAt p = None \<and> linkPrecedence p = Primary
      \<and> primaryIdOf m = Some (cid p)"
  proof (cases "linkPrecedence m")
    case Primary
    with mr show ?thesis by (auto simp: primaryIdOf_def)
  next
    case Secondary
    with mr assms(1) obtain p where "p \<in> set (rows s)" "linkedId m = Some (cid p)"
      "linkPrecedence p = Primary" "deletedAt p = None"
      unfolding everySecondaryHasLivePrimary_def by blast
    with Secondary show ?thesis by (auto simp: primaryIdOf_def)
  qed
  then obtain p where p: "p \<in> set (rows s)" "deletedAt p = None" "linkPrecedence p = Primary"
    "primaryIdOf m = Some (cid p)" by blast
  from m p(4) have "cid p \<in> set (collectPrimaryIds [] (findDirectMatches s em ph))"
    unfolding set_collectPrimaryIds by auto
  with p(1,2) have "p \<in> set (fetchCluster s (collectPrimaryIds [] (findDirectMatches s em ph)))"
    unfolding set_fetchCluster by simp
  with p(3) show ?thesis unfolding electPrimary_None_iff by blast
qed

text \<open>The faults of the transaction body, with unique ids: the store's refusal of the
  insert, and the \<open>TypeError\<close> for a fetched cluster without a primary.\<close>

lemma identifyTx_faults:
  assumes dist: "distinct (map cid (rows s))" and run: "identifyTx now inp s = (Inl e, t)"
  shows "e = StoreFault
         \<or> (e = TypeError \<and> findDirectMatches s (email_in inp) (phoneNumber_in inp) \<noteq> []
              \<and> electPrimary (fetchCluster s (collectPrimaryIds []
                    (findDirectMatches s (email_in inp) (phoneNumber_in inp)))) = None)"
proof (cases "findDirectMatches s (email_in inp) (phoneNumber_in inp) = []")
  case True
  show ?thesis
  proof (cases "createContact now s (email_in inp) (phoneNumber_in inp) None Primary")
    case (Inl e')
    with run createContact_fault [OF Inl] show ?thesis
      unfolding identifyTx_no_match [OF True] by simp
  next
    case (Inr cs)
    then obtain c s1
      where cr: "createContact now s (email_in inp) (phoneNumber_in inp) None Primary = Inr (c, s1)"
      by (cases cs) simp
    have "\<exists>r. formatResponse [c] = Inr r"
      by (rule formatResponse_ok [where p = c]) (simp_all add: createContact_props(5) [OF cr])
    with run cr show ?thesis unfolding identifyTx_no_match [OF True] by auto
  qed
next
  case False
  let ?cl = "fetchCluster s (collectPrimaryIds []
               (findDirectMatches s (email_in inp) (phoneNumber_in inp)))"
  let ?D = "cid ` set (drop 1 (primariesOf ?cl))"
  show ?thesis
  proof (cases "electPrimary ?cl")
    case None
    from identifyTx_no_primary [OF False None, of now] run False None show ?thesis by simp
  next
    case (Some cp)
    from demoteExtras_succeeds [OF drop1_subset_rows] obtain s1
      where lp: "demoteExtras now s (drop 1 (primariesOf ?cl)) (Some cp) = (None, s1)" by blast
    have nd: "cid cp \<notin> ?D" using dist Some by (rule elected_not_demoted)
    from demoteExtras_closed [OF nd lp]
    have r1: "rows s1 = map (mergedRow now ?D (cid cp)) (rows s)" by simp
    from elected_after_merge [OF Some nd r1] obtain p
      where p: "p \<in> set (fetchFinalCluster s1 (cid cp))" "linkPrecedence p = Primary" by blast
    from formatResponse_ok [OF p] obtain r
      where ok1: "formatResponse (fetchFinalCluster s1 (cid cp)) = Inr r" by blast
    show ?thesis
    proof (cases "createContact now s1 (email_in inp) (phoneNumber_in inp) (Some (cid cp)) Secondary")
      case (Inl e')
      with run ok1 createContact_fault [OF Inl] show ?thesis
        unfolding identifyTx_match [OF False Some lp] by (auto split: if_splits)
    next
      case (Inr cs)
      then obtain c s2 where cr: "createContact now s1 (email_in inp) (phoneNumber_in inp)
          (Some (cid cp)) Secondary = Inr (c, s2)"
        by (cases cs) simp
      from p(1) have "p \<in> set (fetchFinalCluster s2 (cid cp))"
        unfolding set_fetchFinalCluster createContact_props(1) [OF cr] by simp
      from formatResponse_ok [OF this p(2)] obtain r'
        where ok2: "formatResponse (fetchFinalCluster s2 (cid cp)) = Inr r'" by blast
      from run ok1 ok2 cr show ?thesis
        unfolding identifyTx_match [OF False Some lp] by (auto split: if_splits)
    qed
  qed
qed

text \<open>
  Claim C10, as amended. In a store with unique ids the invariant fault of the formatter
  is out of reach of \<open>identify\<close>. When in addition every non-deleted secondary links to the
  id of a primary that is not deleted, \<open>identify\<close> never ends with the \<open>TypeError\<close> of
  reading the id of a missing canonical primary. The election site has no check of its
  own: when the matched rows lead to a cluster without a primary, the request ends with
  the \<open>TypeError\<close>, not with the invariant fault, and the store is left as it was.
\<close>

theorem identify_election_unguarded:
  "(distinct (map cid (rows s)) \<longrightarrow> fst (identify now s inp) \<noteq> Inl InvariantFault)
   \<and> (distinct (map cid (rows s)) \<and> everySecondaryHasLivePrimary s \<longrightarrow>
        fst (identify now s inp) \<noteq> Inl TypeError)
   \<and> (findDirectMatches s (email_in inp) (phoneNumber_in inp) \<noteq> []
      \<and> electPrimary (fetchCluster s (collectPrimaryIds []
           (findDirectMatches s (email_in inp) (phoneNumber_in inp)))) = None \<longrightarrow>
      identify now s inp = (Inl TypeError, s))"
proof (intro conjI impI)
  have fault: "e = ValidationFault \<or> (\<exists>t. identifyTx now inp s = (Inl e, t))"
    if "fst (identify now s inp) = Inl e" for e
    using that
    by (cases "identifyTx now inp s")
       (auto simp: identify_def transaction_def split: if_splits sum.splits)
  {
    assume dist: "distinct (map cid (rows s))"
    show "fst (identify now s inp) \<noteq> Inl InvariantFault"
    proof
      assume "fst (identify now s inp) = Inl InvariantFault"
      from fault [OF this] obtain t where "identifyTx now inp s = (Inl InvariantFault, t)" by auto
      from identifyTx_faults [OF dist this] show False by simp
    qed
  }
  {
    assume h: "distinct (map cid (rows s)) \<and> everySecondaryHasLivePrimary s"
    show "fst (identify now s inp) \<noteq> Inl TypeError"
    proof
      assume "fst (identify now s inp) = Inl TypeError"
      from fault [OF this] obtain t where "identifyTx now inp s = (Inl TypeError, t)" by auto
      from identifyTx_faults [OF _ this] h
      have "findDirectMatches s (email_in inp) (phoneNumber_in inp) \<noteq> []
          \<and> electPrimary (fetchCluster s (collectPrimaryIds []
                (findDirectMatches s (email_in inp) (phoneNumber_in inp)))) = None"
        by auto
      with elect_exists [of s "email_in inp" "phoneNumber_in inp"] h show False by simp
    qed
  }
  assume h: "findDirectMatches s (email_in inp) (phoneNumber_in inp) \<noteq> []
      \<and> electPrimary (fetchCluster s (collectPrimaryIds []
           (findDirectMatches s (email_in inp) (phoneNumber_in inp)))) = None"
  then have tx: "identifyTx now inp s = (Inl TypeError, s)"
    using identifyTx_no_primary by blast
  from h have "truthy (email_in inp) \<or> truthy (phoneNumber_in inp)"
    using findDirectMatches_absent [of "email_in inp" "phoneNumber_in inp" s] by blast
  with tx show "identify now s inp = (Inl TypeError, s)"
    by (auto simp: identify_def transaction_def)
qed

theorem identify_election_unguarded_witness:
  "distinct (map cid (rows mergeStore)) \<and> everySecondaryHasLivePrimary mergeStore
   \<and> fst (identify 300 mergeStore \<lparr>email_in = Some ''e1'', phoneNumber_in = Some ''p2''\<rparr>)
       = Inr \<lparr>primaryContactId = 1, emails = [''e1'', ''e2'', ''e3''],
              phoneNumbers = [''p1'', ''p2''], secondaryContactIds = [2, 3, 4]\<rparr>
   \<and> fst (identify 300 mergeStore \<lparr>email_in = Some ''e1'', phoneNumber_in = Some ''p2''\<rparr>)
       \<noteq> Inl TypeError
   \<and> findDirectMatches orphanStore (Some ''b@x.com'') None \<noteq> []
   \<and> identify 300 orphanStore \<lparr>email_in = Some ''b@x.com'', phoneNumber_in = None\<rparr>
       = (Inl TypeError, orphanStore)"
proof -
  have d: "distinct (map cid (rows mergeStore))"
    by (simp add: mergeStore_def contact_def)
  have e: "everySecondaryHasLivePrimary mergeStore"
    by (simp add: everySecondaryHasLivePrimary_def mergeStore_def contact_def)
  have v: "fst (identify 300 mergeStore \<lparr>email_in = Some ''e1'', phoneNumber_in = Some ''p2''\<rparr>)
       = Inr \<lparr>primaryContactId = 1, emails = [''e1'', ''e2'', ''e3''],
              phoneNumbers = [''p1'', ''p2''], secondaryContactIds = [2, 3, 4]\<rparr>"
    by (simp add: mergeStore_def eval_defs)
  from identify_election_unguarded [where s = mergeStore and now = 300
      and inp = "\<lparr>email_in = Some ''e1'', phoneNumber_in = Some ''p2''\<rparr>"] d e
  have n: "fst (identify 300 mergeStore \<lparr>email_in = Some ''e1'', phoneNumber_in = Some ''p2''\<rparr>)
       \<noteq> Inl TypeError" by blast
  have o: "findDirectMatches orphanStore (email_in \<lparr>email_in = Some ''b@x.com'', phoneNumber_in = None\<rparr>)
             (phoneNumber_in \<lparr>email_in = Some ''b@x.com'', phoneNumber_in = None\<rparr>) \<noteq> []
      \<and> electPrimary (fetchCluster orphanStore (collectPrimaryIds []
           (findDirectMatches orphanStore (email_in \<lparr>email_in = Some ''b@x.com'', phoneNumber_in = None\<rparr>)
             (phoneNumber_in \<lparr>email_in = Some ''b@x.com'', phoneNumber_in = None\<rparr>)))) = None"
    by (simp add: orphanStore_def eval_defs)
  from identify_election_unguarded [where s = orphanStore and now = 300
      and inp = "\<lparr>email_in = Some ''b@x.com'', phoneNumber_in = None\<rparr>"] o
  have "identify 300 orphanStore \<lparr>email_in = Some ''b@x.com'', phoneNumber_in = None\<rparr>
       = (Inl TypeError, orphanStore)" by blast
  moreover have "findDirectMatches orphanStore (Some ''b@x.com'') None \<noteq> []"
    using o by simp
  ultimately show ?thesis using d e v n by blast
qed

text \<open>
  Claim C10 as it is written asks only that the cluster of every non-deleted row, the rows
  connected to it by equal emails or phone numbers, holds a primary. In the store below
  the secondary 3 shares its email with the primary 1 and links to the deleted primary 2.
  Every cluster holds a primary, ids are unique and links well-formed, yet the request for
  the phone number of row 3 fetches a cluster without a primary and ends with the
  \<open>TypeError\<close>.
\<close>

theorem identify_election_unguarded_counterexample:
  "everyClusterHasPrimary strayStore \<and> uniqueIds strayStore \<and> linksOk strayStore
   \<and> flat (rows strayStore)
   \<and> identify 500 strayStore \<lparr>email_in = None, phoneNumber_in = Some ''2''\<rparr>
       = (Inl TypeError, strayStore)"
proof -
  define r1 where "r1 = contact 1 (Some ''a@x.com'') (Some ''1'') None Primary 100"
  define r2 where "r2 = (contact 2 (Some ''b@x.com'') (Some ''2'') None Primary 200)\<lparr>deletedAt := Some 400\<rparr>"
  define r3 where "r3 = contact 3 (Some ''a@x.com'') (Some ''2'') (Some 2) Secondary 300"
  have rows: "rows strayStore = [r1, r2, r3]"
    by (simp add: strayStore_def r1_def r2_def r3_def)
  have p1: "linkPrecedence r1 = Primary \<and> deletedAt r1 = None"
    by (simp add: r1_def contact_def)
  have "(r3, r1) \<in> connects strayStore"
    unfolding connects_def rows
    by (simp add: r1_def r3_def contact_def sameIdentity_def)
  then have c3: "r1 \<in> clusterOf strayStore r3" unfolding clusterOf_def by auto
  have c1: "r1 \<in> clusterOf strayStore r1" unfolding clusterOf_def by simp
  have d2: "deletedAt r2 \<noteq> None" by (simp add: r2_def)
  have e: "everyClusterHasPrimary strayStore"
    unfolding everyClusterHasPrimary_def rows using p1 c1 c3 d2 by auto
  have u: "uniqueIds strayStore"
    by (simp add: uniqueIds_def strayStore_def contact_def)
  have l: "linksOk strayStore"
    by (simp add: linksOk_def strayStore_def contact_def)
  have f: "flat (rows strayStore)"
    by (simp add: flat_def strayStore_def contact_def)
  have t: "identify 500 strayStore \<lparr>email_in = None, phoneNumber_in = Some ''2''\<rparr>
       = (Inl TypeError, strayStore)"
    by (simp add: strayStore_def eval_defs)
  from e u l f t show ?thesis by blast
qed

section \<open>Idempotence\<close>

lemma find_not_None: "find P xs \<noteq> None \<longleftrightarrow> (\<exists>x \<in> set xs. P x)"
proof -
  have "find P xs = None \<longleftrightarrow> \<not> (\<exists>x \<in> set xs. P x)"
    unfolding find_None_iff by blast
  then show ?thesis by simp
qed

lemma findExactMatch_iff:
  "findExactMatch s em ph \<noteq> None \<longleftrightarrow> (\<exists>c \<in> set (rows s). exactMatch em ph c)"
proof (cases "truthy em")
  case em: True
  show ?thesis
  proof (cases "truthy ph")
    case True
    with em show ?thesis
      unfolding findExactMatch_def findFirst_def exactMatch_def by (simp only: find_not_None if_True simp_thms)
  next
    case False
    with em show ?thesis
      unfolding findExactMatch_def findFirst_def exactMatch_def
      by (simp only: find_not_None if_True if_False simp_thms)
  qed
next
  case em: False
  show ?thesis
  proof (cases "truthy ph")
    case True
    with em show ?thesis
      unfolding findExactMatch_def findFirst_def exactMatch_def
      by (simp only: find_not_None if_True if_False simp_thms)
  next
    case False
    with em show ?thesis
      unfolding findExactMatch_def findFirst_def exactMatch_def by simp
  qed
qed

lemma exactMatch_directMatch: "exactMatch em ph c \<Longrightarrow> directMatch em ph c"
  by (auto simp: exactMatch_def directMatch_def split: if_splits)

lemma set_findDirectMatches:
  "set (findDirectMatches s em ph) = {c \<in> set (rows s). directMatch em ph c}"
  by (simp add: findDirectMatches_eq)

lemma exactMatch_mergedRow [simp]:
  "exactMatch em ph (mergedRow now D c r) = exactMatch em ph r"
  by (simp add: exactMatch_def mergedRow_keeps)

lemma directMatch_mergedRow [simp]:
  "directMatch em ph (mergedRow now D c r) = directMatch em ph r"
  by (simp add: directMatch_def mergedRow_keeps)

text \<open>A state in which the request finds its cluster merged and its exact row present:
  the transaction body answers from the final cluster and writes nothing.\<close>

lemma identifyTx_stable:
  assumes dist: "distinct (map cid (rows t))"
    and dm: "findDirectMatches t (email_in inp) (phoneNumber_in inp) \<noteq> []"
    and ex: "p \<in> set (fetchCluster t (collectPrimaryIds []
               (findDirectMatches t (email_in inp) (phoneNumber_in inp))))"
            "linkPrecedence p = Primary"
    and only: "\<And>q. q \<in> set (fetchCluster t (collectPrimaryIds []
               (findDirectMatches t (email_in inp) (phoneNumber_in inp))))
             \<Longrightarrow> linkPrecedence q = Primary \<Longrightarrow> cid q = k"
    and exact: "findExactMatch t (email_in inp) (phoneNumber_in inp) \<noteq> None"
  shows "identifyTx now inp t = (formatResponse (fetchFinalCluster t k), t)"
proof -
  let ?cl = "fetchCluster t (collectPrimaryIds []
               (findDirectMatches t (email_in inp) (phoneNumber_in inp)))"
  have d: "distinct (map cid (primariesOf ?cl))" using dist by (rule distinct_ids_fetchCluster)
  have allk: "\<forall>q \<in> set (primariesOf ?cl). cid q = k" using only by simp
  from ex have "p \<in> set (primariesOf ?cl)" by simp
  then obtain x xs where xs: "primariesOf ?cl = x # xs" by (cases "primariesOf ?cl") auto
  have "xs = []"
  proof (cases xs)
    case (Cons y ys)
    with xs allk have "cid x = k" "cid y = k" by simp_all
    with d xs Cons show ?thesis by simp
  qed simp
  with xs have one: "primariesOf ?cl = [x]" by simp
  then have el: "electPrimary ?cl = Some x" by (simp add: electPrimary_def)
  from one allk have k: "cid x = k" by simp
  have lp: "demoteExtras now t (drop 1 (primariesOf ?cl)) (Some x) = (None, t)"
    unfolding one by simp
  show ?thesis
    unfolding identifyTx_match [OF dm el lp] using exact k by simp
qed

lemma map_cid_mergedRow: "map cid (map (mergedRow now D c) rs) = map cid rs"
  by (simp add: mergedRow_keeps comp_def)

lemma mergedRow_primary:
  assumes "linkPrecedence r = Primary \<longrightarrow> linkedId r = None"
  shows "linkPrecedence (mergedRow now D c r) = Primary \<longleftrightarrow> linkPrecedence r = Primary \<and> cid r \<notin> D"
    and "linkPrecedence r = Primary \<Longrightarrow> cid r \<notin> D \<Longrightarrow> mergedRow now D c r = r"
  using assms by (auto simp: mergedRow_def)

lemma primaryIdOf_mergedRow:
  assumes "linkPrecedence r = Primary \<longrightarrow> linkedId r = None"
    and "cid r \<in> D \<longrightarrow> linkPrecedence r = Primary"
    and "deletedAt r = None"
  shows "primaryIdOf (mergedRow now D c r)
           = map_option (\<lambda>i. if i \<in> D then c else i) (primaryIdOf r)"
proof (cases "cid r \<in> D")
  case True
  with assms(2) show ?thesis by (simp add: primaryIdOf_def mergedRow_def)
next
  case nd: False
  show ?thesis
  proof (cases "linkPrecedence r = Primary")
    case True
    with nd assms(1) show ?thesis by (simp add: primaryIdOf_def mergedRow_def)
  next
    case False
    with nd assms(3) show ?thesis
      by (cases "linkedId r") (auto simp: primaryIdOf_def mergedRow_def)
  qed
qed

lemma set_primaryIds:
  "set (collectPrimaryIds [] ms) = {i. \<exists>m \<in> set ms. primaryIdOf m = Some i}"
  by (simp add: set_collectPrimaryIds)

text \<open>The state a successful match branch leaves: the merged rows, and possibly one more
  secondary of the canonical primary.\<close>

lemma merged_state_stable:
  fixes s t :: Store and inp :: IdentifyInput
  defines "em \<equiv> email_in inp" and "ph \<equiv> phoneNumber_in inp"
  defines "cl \<equiv> fetchCluster s (collectPrimaryIds [] (findDirectMatches s em ph))"
  defines "D \<equiv> cid ` set (drop 1 (primariesOf cl))"
  assumes dist: "distinct (map cid (rows s))" and lo: "linksOk s"
    and dm: "findDirectMatches s em ph \<noteq> []"
    and el: "electPrimary cl = Some cp"
    and img: "mergedRow now D (cid cp) ` set (rows s) \<subseteq> set (rows t)"
    and others0: "\<forall>x \<in> set (rows t). x \<in> mergedRow now D (cid cp) ` set (rows s)
                   \<or> (linkPrecedence x = Secondary \<and> linkedId x = Some (cid cp))"
  shows "findDirectMatches t em ph \<noteq> []"
    and "cp \<in> set (fetchCluster t (collectPrimaryIds [] (findDirectMatches t em ph)))"
    and "\<And>q. q \<in> set (fetchCluster t (collectPrimaryIds [] (findDirectMatches t em ph)))
           \<Longrightarrow> linkPrecedence q = Primary \<Longrightarrow> cid q = cid cp"
proof -
  let ?M = "mergedRow now D (cid cp)"
  note others = others0 [rule_format]
  let ?rho = "\<lambda>i. if i \<in> D then cid cp else i"
  have prim_none: "linkPrecedence r = Primary \<longrightarrow> linkedId r = None" if "r \<in> set (rows s)" for r
    using lo that by (simp add: linksOk_def)
  from el obtain rest where rest: "primariesOf cl = cp # rest"
    by (auto simp: electPrimary_def split: list.splits)
  then have D: "D = cid ` set rest" by (simp add: D_def)
  have cpnd: "cid cp \<notin> D"
    using elected_not_demoted [OF dist el [unfolded cl_def]] by (simp add: D_def cl_def)
  have prims: "cid q = cid cp \<or> cid q \<in> D"
    if "q \<in> set cl" "linkPrecedence q = Primary" for q
  proof -
    from that have "q \<in> set (primariesOf cl)" by simp
    then show ?thesis unfolding rest D by auto
  qed
  have inj: "inj_on cid (set (rows s))" using dist by (simp add: distinct_map)
  have Dprim: "linkPrecedence r = Primary" if "r \<in> set (rows s)" "cid r \<in> D" for r
  proof -
    from that(2) obtain q where q: "q \<in> set rest" "cid q = cid r" unfolding D by auto
    then have "q \<in> set (primariesOf cl)" unfolding rest by simp
    then have "q \<in> set (rows s)" "linkPrecedence q = Primary"
      by (simp_all add: cl_def set_fetchCluster)
    with inj that(1) q(2) show ?thesis by (auto dest: inj_onD)
  qed
  have A: "primaryIdOf (?M r) = map_option ?rho (primaryIdOf r)"
    if "r \<in> set (rows s)" "deletedAt r = None" for r
    using prim_none [OF that(1)] Dprim [OF that(1)] that(2) by (intro primaryIdOf_mergedRow) auto
  have cp_in: "cp \<in> set (rows s)" "linkPrecedence cp = Primary" "deletedAt cp = None"
    using elected_in_store [OF el [unfolded cl_def]] by simp_all
  have Mcp: "?M cp = cp"
    using mergedRow_primary(2) [OF prim_none [OF cp_in(1)] cp_in(2) cpnd] .
  have cp_t: "cp \<in> set (rows t)" using img cp_in(1) Mcp by force
  \<comment> \<open>a direct match of the first call that refers to the canonical primary\<close>
  from electPrimary_Some(1) [OF el] have "cp \<in> set cl" .
  then have "cid cp \<in> set (collectPrimaryIds [] (findDirectMatches s em ph))"
    using prim_none [OF cp_in(1)] cp_in(2) by (auto simp: cl_def set_fetchCluster)
  then obtain m0 where m0: "m0 \<in> set (findDirectMatches s em ph)" "primaryIdOf m0 = Some (cid cp)"
    unfolding set_primaryIds by blast
  from m0(1) have m0r: "m0 \<in> set (rows s)" "directMatch em ph m0"
    by (simp_all add: set_findDirectMatches)
  then have m0d: "deletedAt m0 = None" by (simp add: directMatch_def)
  have Mm0: "?M m0 \<in> set (findDirectMatches t em ph)"
    using img m0r by (auto simp: set_findDirectMatches)
  then show ne: "findDirectMatches t em ph \<noteq> []" by auto
  have "primaryIdOf (?M m0) = Some (cid cp)"
    unfolding A [OF m0r(1) m0d] m0(2) using cpnd by simp
  with Mm0 have cin: "cid cp \<in> set (collectPrimaryIds [] (findDirectMatches t em ph))"
    unfolding set_primaryIds by blast
  with cp_t cp_in(3)
  show "cp \<in> set (fetchCluster t (collectPrimaryIds [] (findDirectMatches t em ph)))"
    unfolding set_fetchCluster by simp
  fix q assume q: "q \<in> set (fetchCluster t (collectPrimaryIds [] (findDirectMatches t em ph)))"
    and qp: "linkPrecedence q = Primary"
  from q have qt: "q \<in> set (rows t)" and qd: "deletedAt q = None"
    and qref: "cid q \<in> set (collectPrimaryIds [] (findDirectMatches t em ph))
       \<or> (\<exists>l \<in> set (collectPrimaryIds [] (findDirectMatches t em ph)). linkedId q = Some l)"
    unfolding set_fetchCluster by simp_all
  from others [OF qt] qp obtain q0 where q0: "q0 \<in> set (rows s)" "q = ?M q0" by auto
  from qp q0 mergedRow_primary(1) [OF prim_none [OF q0(1)]]
  have q0p: "linkPrecedence q0 = Primary" "cid q0 \<notin> D" by simp_all
  from mergedRow_primary(2) [OF prim_none [OF q0(1)] q0p] q0(2) have qq: "q = q0" by simp
  with prim_none [OF q0(1)] q0p(1) have "linkedId q = None" by simp
  with qref have "cid q \<in> set (collectPrimaryIds [] (findDirectMatches t em ph))" by simp
  then obtain m where m: "m \<in> set (findDirectMatches t em ph)" "primaryIdOf m = Some (cid q)"
    unfolding set_primaryIds by blast
  from m(1) have mt: "m \<in> set (rows t)" "directMatch em ph m"
    by (simp_all add: set_findDirectMatches)
  show "cid q = cid cp"
  proof (cases "m \<in> ?M ` set (rows s)")
    case False
    with others [OF mt(1)] have "linkPrecedence m = Secondary \<and> linkedId m = Some (cid cp)"
      by simp
    with m(2) show ?thesis by (simp add: primaryIdOf_def)
  next
    case True
    then obtain m1 where m1: "m1 \<in> set (rows s)" "m = ?M m1" by auto
    with mt(2) have m1dm: "directMatch em ph m1" by simp
    then have m1d: "deletedAt m1 = None" by (simp add: directMatch_def)
    from m(2) have "map_option ?rho (primaryIdOf m1) = Some (cid q)"
      unfolding m1(2) A [OF m1(1) m1d] .
    then obtain i where i: "primaryIdOf m1 = Some i" "?rho i = cid q" by auto
    show ?thesis
    proof (cases "i \<in> D")
      case True
      with i(2) show ?thesis by simp
    next
      case False
      with i(2) have "cid q = i" by simp
      moreover from m1 m1dm i(1)
      have "i \<in> set (collectPrimaryIds [] (findDirectMatches s em ph))"
        unfolding set_primaryIds by (auto simp: set_findDirectMatches)
      ultimately have "q \<in> set cl"
        using q0(1) qd qq by (simp add: cl_def set_fetchCluster)
      from prims [OF this qp] q0p(2) qq show ?thesis by simp
    qed
  qed
qed

lemma identify_valid:
  "truthy (email_in inp) \<or> truthy (phoneNumber_in inp) \<Longrightarrow>
     identify now s inp = transaction (identifyTx now inp) s"
  by (auto simp: identify_def)

lemma transaction_Inr: "body s = (Inr r, t) \<Longrightarrow> transaction body s = (Inr r, t)"
  by (simp add: transaction_def)

lemma transaction_Inl: "body s = (Inl e, t) \<Longrightarrow> transaction body s = (Inl e, s)"
  by (simp add: transaction_def)

lemma directMatch_valid: "directMatch em ph c \<Longrightarrow> truthy em \<or> truthy ph"
  by (auto simp: directMatch_def)

lemma linksOk_no_forward:
  assumes "uniqueIds s" "linksOk s" "x \<in> set (rows s)"
  shows "cid x \<noteq> nextId s" "linkedId x \<noteq> Some (nextId s)"
proof -
  from assms(1,3) have "cid x < nextId s" by (simp add: uniqueIds_def)
  then show "cid x \<noteq> nextId s" by simp
  from assms(2,3) have "\<forall>l. linkedId x = Some l \<longrightarrow> l < nextId s" by (simp add: linksOk_def)
  then show "linkedId x \<noteq> Some (nextId s)" by auto
qed

text \<open>The request that matched nothing, asked again.\<close>

lemma identify_again_new:
  assumes u: "uniqueIds s" and lo: "linksOk s"
    and valid: "truthy (email_in inp) \<or> truthy (phoneNumber_in inp)"
    and dm: "findDirectMatches s (email_in inp) (phoneNumber_in inp) = []"
    and cr: "createContact now s (email_in inp) (phoneNumber_in inp) None Primary = Inr (c, t)"
  shows "identify now s inp = (formatResponse [c], t)"
    and "identify now' t inp = (formatResponse [c], t)"
    and "\<exists>r. formatResponse [c] = Inr r"
proof -
  let ?em = "email_in inp" and ?ph = "phoneNumber_in inp"
  note cp = createContact_props [OF cr]
  show ok: "\<exists>r. formatResponse [c] = Inr r"
    by (rule formatResponse_ok [where p = c]) (simp_all add: cp(5))
  have tx: "identifyTx now inp s = (formatResponse [c], t)"
    using cr unfolding identifyTx_no_match [OF dm] by simp
  from ok tx show "identify now s inp = (formatResponse [c], t)"
    unfolding identify_valid [OF valid] by (auto simp: transaction_def)
  have old: "\<not> directMatch ?em ?ph x" "cid x \<noteq> nextId s" "linkedId x \<noteq> Some (nextId s)"
    if "x \<in> set (rows s)" for x
  proof -
    from dm that show "\<not> directMatch ?em ?ph x"
      by (simp add: findDirectMatches_eq findManyAsc_def filter_empty_conv)
  qed (rule linksOk_no_forward [OF u lo that])+
  have cdm: "directMatch ?em ?ph c" using valid by (auto simp: directMatch_def cp)
  have cex: "exactMatch ?em ?ph c" using valid by (auto simp: exactMatch_def cp)
  have dist: "distinct (map cid (rows t))"
    using createContact_uniqueIds [OF cr u] by (simp add: uniqueIds_def)
  have dmt: "set (findDirectMatches t ?em ?ph) = {c}"
    unfolding set_findDirectMatches cp(1) using old(1) cdm by auto
  then have ne: "findDirectMatches t ?em ?ph \<noteq> []" by auto
  have ids: "set (collectPrimaryIds [] (findDirectMatches t ?em ?ph)) = {nextId s}"
    unfolding set_primaryIds dmt by (auto simp: primaryIdOf_def cp)
  have clt: "set (fetchCluster t (collectPrimaryIds [] (findDirectMatches t ?em ?ph))) = {c}"
    unfolding set_fetchCluster ids cp(1) using old(2,3) by (auto simp: cp)
  have fin: "fetchFinalCluster t (cid c) = [c]"
  proof -
    have "filter (\<lambda>x. (cid x = cid c \<or> linkedId x = Some (cid c)) \<and> deletedAt x = None) (rows s) = []"
      unfolding filter_empty_conv cp(4) using old(2,3) by blast
    then show ?thesis
      by (simp add: fetchFinalCluster_def findManyAsc_def cp(1) cp(9))
  qed
  have exact: "findExactMatch t ?em ?ph \<noteq> None"
    unfolding findExactMatch_iff cp(1) using cex by auto
  have "identifyTx now' inp t = (formatResponse (fetchFinalCluster t (cid c)), t)"
  proof (rule identifyTx_stable [OF dist ne _ _ _ exact])
    show "c \<in> set (fetchCluster t (collectPrimaryIds [] (findDirectMatches t ?em ?ph)))"
      unfolding clt by simp
    show "linkPrecedence c = Primary" by (rule cp(5))
    fix q assume "q \<in> set (fetchCluster t (collectPrimaryIds [] (findDirectMatches t ?em ?ph)))"
    then show "cid q = cid c" unfolding clt by simp
  qed
  with ok show "identify now' t inp = (formatResponse [c], t)"
    unfolding identify_valid [OF valid] fin by (auto simp: transaction_def)
qed

text \<open>Whether the table accepts a row depends on the ids in use and on the id sequence,
  which the merge leaves as they are.\<close>

lemma insertable_merged:
  assumes "rows s1 = map (mergedRow now D c) (rows s)" "nextId s1 = nextId s"
  shows "insertable s1 em ph = insertable s em ph"
  using assms by (simp add: insertable_def list_ex_iff mergedRow_cid)

text \<open>The request that matched and whose new secondary the table refuses: the merge is
  rolled back with it, whatever the time of the call.\<close>

lemma identify_match_refused:
  fixes s :: Store and inp :: IdentifyInput
  defines "em \<equiv> email_in inp" and "ph \<equiv> phoneNumber_in inp"
  defines "cl \<equiv> fetchCluster s (collectPrimaryIds [] (findDirectMatches s em ph))"
  assumes dist: "distinct (map cid (rows s))"
    and dm: "findDirectMatches s em ph \<noteq> []"
    and el: "electPrimary cl = Some cp"
    and nex: "\<not> (\<exists>c \<in> set (rows s). exactMatch em ph c)"
    and nins: "\<not> insertable s em ph"
  shows "identify n s inp = (Inl StoreFault, s)"
proof -
  let ?D = "cid ` set (drop 1 (primariesOf cl))"
  from dm have valid: "truthy (email_in inp) \<or> truthy (phoneNumber_in inp)"
    using findDirectMatches_absent [of em ph s] by (auto simp: em_def ph_def)
  from demoteExtras_succeeds [OF drop1_subset_rows] obtain s1
    where lp: "demoteExtras n s (drop 1 (primariesOf cl)) (Some cp) = (None, s1)"
    unfolding cl_def by blast
  have nd: "cid cp \<notin> ?D"
    using elected_not_demoted [OF dist el [unfolded cl_def]] by (simp add: cl_def)
  from demoteExtras_closed [OF nd lp]
  have r1: "rows s1 = map (mergedRow n ?D (cid cp)) (rows s)" and n1: "nextId s1 = nextId s"
    by simp_all
  have "\<not> (\<exists>c \<in> set (rows s1). exactMatch em ph c)" using nex unfolding r1 by simp
  then have ne: "findExactMatch s1 em ph = None" using findExactMatch_iff [of s1 em ph] by simp
  have "\<not> insertable s1 em ph" using nins unfolding insertable_merged [OF r1 n1] .
  then have cr: "createContact n s1 em ph (Some (cid cp)) Secondary = Inl StoreFault"
    by (rule createContact_refused)
  have "identifyTx n inp s = (Inl StoreFault, s1)"
    using identifyTx_match [OF dm [unfolded em_def ph_def] el [unfolded cl_def em_def ph_def]
        lp [unfolded cl_def em_def ph_def]] ne cr
    by (simp add: em_def ph_def)
  then show ?thesis unfolding identify_valid [OF valid] by (rule transaction_Inl)
qed

text \<open>The request that matched and merged, asked again.\<close>

lemma identify_again_match:
  fixes s :: Store and inp :: IdentifyInput
  defines "em \<equiv> email_in inp" and "ph \<equiv> phoneNumber_in inp"
  defines "cl \<equiv> fetchCluster s (collectPrimaryIds [] (findDirectMatches s em ph))"
  assumes u: "uniqueIds s" and lo: "linksOk s"
    and dm: "findDirectMatches s em ph \<noteq> []"
    and el: "electPrimary cl = Some cp"
    and acc: "(\<exists>c \<in> set (rows s). exactMatch em ph c) \<or> insertable s em ph"
  shows "\<exists>r t. identify now s inp = (Inr r, t) \<and> identify now' t inp = (Inr r, t)
           \<and> length (rows t) \<le> length (rows s) + 1
           \<and> ((\<exists>c \<in> set (rows s). exactMatch em ph c) \<longrightarrow> length (rows t) = length (rows s))"
proof -
  let ?D = "cid ` set (drop 1 (primariesOf cl))"
  let ?M = "mergedRow now ?D (cid cp)"
  from u have dist: "distinct (map cid (rows s))" by (simp add: uniqueIds_def)
  from dm have valid: "truthy (email_in inp) \<or> truthy (phoneNumber_in inp)"
    using findDirectMatches_absent [of em ph s] by (auto simp: em_def ph_def)
  from demoteExtras_succeeds [OF drop1_subset_rows] obtain s1
    where lp: "demoteExtras now s (drop 1 (primariesOf cl)) (Some cp) = (None, s1)"
    unfolding cl_def by blast
  have nd: "cid cp \<notin> ?D" using elected_not_demoted [OF dist el [unfolded cl_def]] by (simp add: cl_def)
  from demoteExtras_closed [OF nd lp]
  have r1: "rows s1 = map ?M (rows s)" and n1: "nextId s1 = nextId s" by simp_all
  have u1: "uniqueIds s1" using u unfolding uniqueIds_alt r1 n1 map_cid_mergedRow .
  note txm = identifyTx_match [OF dm [unfolded em_def ph_def] el [unfolded cl_def em_def ph_def]
        lp [unfolded cl_def em_def ph_def]]
  have ex1: "findExactMatch s1 em ph \<noteq> None \<longleftrightarrow> (\<exists>c \<in> set (rows s). exactMatch em ph c)"
    unfolding findExactMatch_iff r1 by simp
  have "\<exists>t. identifyTx now inp s = (formatResponse (fetchFinalCluster t (cid cp)), t)
      \<and> (rows t = rows s1
          \<or> (\<not> (\<exists>c \<in> set (rows s). exactMatch em ph c)
              \<and> (\<exists>c. rows t = rows s1 @ [c] \<and> linkPrecedence c = Secondary
                    \<and> linkedId c = Some (cid cp))))
      \<and> uniqueIds t \<and> findExactMatch t em ph \<noteq> None"
  proof (cases "findExactMatch s1 em ph \<noteq> None")
    case True
    with txm have "identifyTx now inp s = (formatResponse (fetchFinalCluster s1 (cid cp)), s1)"
      by (simp add: em_def ph_def)
    with True u1 show ?thesis by blast
  next
    case False
    then have no: "findExactMatch s1 em ph = None" by simp
    with ex1 have nex: "\<not> (\<exists>c \<in> set (rows s). exactMatch em ph c)" by simp
    with acc have "insertable s em ph" by simp
    then have "insertable s1 em ph" unfolding insertable_merged [OF r1 n1] .
    then obtain c s2 where cr: "createContact now s1 em ph (Some (cid cp)) Secondary = Inr (c, s2)"
      using createContact_Inr_iff [of now s1 em ph "Some (cid cp)" Secondary] by blast
    note cp2 = createContact_props [OF cr]
    have tx: "identifyTx now inp s = (formatResponse (fetchFinalCluster s2 (cid cp)), s2)"
      using txm no cr by (simp add: em_def ph_def)
    have "exactMatch em ph c" using valid by (auto simp: exactMatch_def cp2 em_def ph_def)
    then have "\<exists>x \<in> set (rows s2). exactMatch em ph x" by (auto simp: cp2(1))
    then have e2: "findExactMatch s2 em ph \<noteq> None" by (simp only: findExactMatch_iff)
    have u2: "uniqueIds s2" using cr u1 by (rule createContact_uniqueIds)
    show ?thesis
    proof (intro exI conjI)
      show "identifyTx now inp s = (formatResponse (fetchFinalCluster s2 (cid cp)), s2)"
        by (rule tx)
      show "rows s2 = rows s1
          \<or> (\<not> (\<exists>c \<in> set (rows s). exactMatch em ph c)
              \<and> (\<exists>c. rows s2 = rows s1 @ [c] \<and> linkPrecedence c = Secondary
                    \<and> linkedId c = Some (cid cp)))"
        using nex cp2(1,5,6) by blast
      show "uniqueIds s2" by (rule u2)
      show "findExactMatch s2 em ph \<noteq> None" by (rule e2)
    qed
  qed
  then obtain t where tx: "identifyTx now inp s = (formatResponse (fetchFinalCluster t (cid cp)), t)"
    and rt: "rows t = rows s1
          \<or> (\<not> (\<exists>c \<in> set (rows s). exactMatch em ph c)
              \<and> (\<exists>c. rows t = rows s1 @ [c] \<and> linkPrecedence c = Secondary
                    \<and> linkedId c = Some (cid cp)))"
    and ut: "uniqueIds t" and exact: "findExactMatch t em ph \<noteq> None"
    by blast
  have img: "?M ` set (rows s) \<subseteq> set (rows t)" using rt r1 by auto
  have others: "\<forall>x \<in> set (rows t).
      x \<in> ?M ` set (rows s) \<or> (linkPrecedence x = Secondary \<and> linkedId x = Some (cid cp))"
    using rt r1 by auto
  from ut have distt: "distinct (map cid (rows t))" by (simp add: uniqueIds_def)
  note st = merged_state_stable [OF dist lo dm [unfolded em_def ph_def]
      el [unfolded cl_def em_def ph_def] img [unfolded cl_def em_def ph_def]
      others [unfolded cl_def em_def ph_def]]
  have again: "identifyTx now' inp t = (formatResponse (fetchFinalCluster t (cid cp)), t)"
  proof (rule identifyTx_stable [OF distt st(1) st(2) _ _ exact [unfolded em_def ph_def]])
    show "linkPrecedence cp = Primary" using electPrimary_Some(2) [OF el] .
    fix q assume "q \<in> set (fetchCluster t (collectPrimaryIds []
        (findDirectMatches t (email_in inp) (phoneNumber_in inp))))" "linkPrecedence q = Primary"
    then show "cid q = cid cp" by (rule st(3))
  qed
  from elected_after_merge [OF el [unfolded cl_def] nd [unfolded cl_def] r1 [unfolded cl_def]] obtain p
    where p: "p \<in> set (fetchFinalCluster s1 (cid cp))" "linkPrecedence p = Primary"
    unfolding cl_def by blast
  from p(1) rt have "p \<in> set (fetchFinalCluster t (cid cp))"
    unfolding set_fetchFinalCluster by auto
  from formatResponse_ok [OF this p(2)] obtain r
    where r: "formatResponse (fetchFinalCluster t (cid cp)) = Inr r" by blast
  have len: "length (rows t) \<le> length (rows s) + 1" using rt r1 by auto
  have same: "length (rows t) = length (rows s)" if "\<exists>c \<in> set (rows s). exactMatch em ph c"
    using that rt r1 by auto
  show ?thesis
  proof (intro exI conjI impI)
    show "identify now s inp = (Inr r, t)"
      unfolding identify_valid [OF valid] using tx r by (simp add: transaction_def)
    show "identify now' t inp = (Inr r, t)"
      unfolding identify_valid [OF valid] using again r by (simp add: transaction_def)
    show "length (rows t) \<le> length (rows s) + 1" by (rule len)
    assume "\<exists>c \<in> set (rows s). exactMatch em ph c"
    then show "length (rows t) = length (rows s)" by (rule same)
  qed
qed

lemma identify_again:
  assumes u: "uniqueIds s" and lo: "linksOk s" and run: "identify now s inp = (res, s1)"
  shows "identify now' s1 inp = (res, s1)"
    and "length (rows s1) \<le> length (rows s) + 1"
    and "(\<exists>c \<in> set (rows s). exactMatch (email_in inp) (phoneNumber_in inp) c)
           \<Longrightarrow> length (rows s1) = length (rows s)"
proof -
  let ?em = "email_in inp" and ?ph = "phoneNumber_in inp"
  let ?cl = "fetchCluster s (collectPrimaryIds [] (findDirectMatches s ?em ?ph))"
  have "identify now' s1 inp = (res, s1) \<and> length (rows s1) \<le> length (rows s) + 1
      \<and> ((\<exists>c \<in> set (rows s). exactMatch ?em ?ph c) \<longrightarrow> length (rows s1) = length (rows s))"
  proof (cases "truthy ?em \<or> truthy ?ph")
    case False
    with run have "res = Inl ValidationFault" "s1 = s" by (auto simp: identify_def)
    with False show ?thesis by (auto simp: identify_def)
  next
    case valid: True
    show ?thesis
    proof (cases "findDirectMatches s ?em ?ph = []")
      case True
      have nex: "\<not> (\<exists>c \<in> set (rows s). exactMatch ?em ?ph c)"
        using True exactMatch_directMatch
        by (auto simp: findDirectMatches_eq findManyAsc_def filter_empty_conv)
      show ?thesis
      proof (cases "insertable s ?em ?ph")
        case True
        then obtain c t where cr: "createContact now s ?em ?ph None Primary = Inr (c, t)"
          using createContact_Inr_iff [of now s ?em ?ph None Primary] by blast
        note a = identify_again_new [OF u lo valid \<open>findDirectMatches s ?em ?ph = []\<close> cr]
        from a(1) run have "res = formatResponse [c]" "s1 = t" by simp_all
        with nex show ?thesis using a(2) [of now'] createContact_props(1) [OF cr] by simp
      next
        case False
        have "identifyTx n inp s = (Inl StoreFault, s)" for n
          unfolding identifyTx_no_match [OF True] createContact_refused [OF False] by simp
        then have "identify n s inp = (Inl StoreFault, s)" for n
          unfolding identify_valid [OF valid] by (rule transaction_Inl)
        with run have "res = Inl StoreFault" "s1 = s" "identify now' s inp = (Inl StoreFault, s)"
          by simp_all
        with nex show ?thesis by simp
      qed
    next
      case dm: False
      show ?thesis
      proof (cases "electPrimary ?cl")
        case None
        from identifyTx_no_primary [OF dm None]
        have "identify n s inp = (Inl TypeError, s)" for n
          unfolding identify_valid [OF valid] by (simp add: transaction_def)
        with run have "res = Inl TypeError" "s1 = s" "identify now' s inp = (Inl TypeError, s)"
          by simp_all
        then show ?thesis by simp
      next
        case (Some cp)
        show ?thesis
        proof (cases "(\<exists>c \<in> set (rows s). exactMatch ?em ?ph c) \<or> insertable s ?em ?ph")
          case True
          from identify_again_match [OF u lo dm Some True, of now now'] run show ?thesis by auto
        next
          case False
          from u have dist: "distinct (map cid (rows s))" by (simp add: uniqueIds_def)
          from False have "identify n s inp = (Inl StoreFault, s)" for n
            using identify_match_refused [OF dist dm Some] by blast
          with run have "res = Inl StoreFault" "s1 = s" "identify now' s inp = (Inl StoreFault, s)"
            by simp_all
          with False show ?thesis by simp
        qed
      qed
    qed
  qed
  then show "identify now' s1 inp = (res, s1)"
    and "length (rows s1) \<le> length (rows s) + 1"
    and "(\<exists>c \<in> set (rows s). exactMatch (email_in inp) (phoneNumber_in inp) c)
           \<Longrightarrow> length (rows s1) = length (rows s)"
    by blast+
qed

lemma identifyRepeat_fixed:
  assumes "\<And>n. identify n t inp = (res, t)"
  shows "identifyRepeat nows t inp = (replicate (length nows) res, t)"
  by (induction nows) (simp_all add: assms)

lemma linksOk_create:
  assumes "createContact now s em ph lid prec = Inr (c, t)" "linksOk s"
    and "prec = Primary \<longrightarrow> lid = None" and "\<forall>l. lid = Some l \<longrightarrow> l < nextId s"
  shows "linksOk t"
  using assms(2,3,4) unfolding linksOk_def createContact_props(1,2) [OF assms(1)]
  by (auto simp: createContact_props(5,6) [OF assms(1)] dest: less_le_trans)

lemma linksOk_merged:
  assumes "linksOk s" "rows s1 = map (mergedRow now D c) (rows s)" "nextId s1 = nextId s"
    and "c < nextId s"
  shows "linksOk s1"
  using assms unfolding linksOk_def by (auto simp: mergedRow_def)

lemma identify_keeps_wellFormed:
  assumes u: "uniqueIds s" and lo: "linksOk s" and run: "identify now s inp = (res, s1)"
  shows "uniqueIds s1 \<and> linksOk s1"
proof -
  let ?em = "email_in inp" and ?ph = "phoneNumber_in inp"
  let ?cl = "fetchCluster s (collectPrimaryIds [] (findDirectMatches s ?em ?ph))"
  let ?D = "cid ` set (drop 1 (primariesOf ?cl))"
  from u have dist: "distinct (map cid (rows s))" by (simp add: uniqueIds_def)
  show ?thesis
  proof (cases "truthy ?em \<or> truthy ?ph")
    case False
    with run have "s1 = s" by (auto simp: identify_def)
    with u lo show ?thesis by simp
  next
    case valid: True
    show ?thesis
    proof (cases "findDirectMatches s ?em ?ph = []")
      case True
      show ?thesis
      proof (cases "createContact now s ?em ?ph None Primary")
        case (Inl e)
        then have "identifyTx now inp s = (Inl e, s)"
          unfolding identifyTx_no_match [OF True] by simp
        then have "identify now s inp = (Inl e, s)"
          unfolding identify_valid [OF valid] by (rule transaction_Inl)
        with run have "s1 = s" by simp
        with u lo show ?thesis by simp
      next
        case (Inr ct)
        then obtain c t where cr: "createContact now s ?em ?ph None Primary = Inr (c, t)"
          by (cases ct) simp
        from identify_again_new(1) [OF u lo valid True cr] run have "s1 = t" by simp
        moreover have "uniqueIds t" using cr u by (rule createContact_uniqueIds)
        moreover have "linksOk t" using cr lo by (rule linksOk_create) simp_all
        ultimately show ?thesis by simp
      qed
    next
      case dm: False
      show ?thesis
      proof (cases "electPrimary ?cl")
        case None
        from identifyTx_no_primary [OF dm None] run have "s1 = s"
          unfolding identify_valid [OF valid] by (simp add: transaction_def)
        with u lo show ?thesis by simp
      next
        case (Some cp)
        from demoteExtras_succeeds [OF drop1_subset_rows] obtain t1
          where lp: "demoteExtras now s (drop 1 (primariesOf ?cl)) (Some cp) = (None, t1)" by blast
        have nd: "cid cp \<notin> ?D" using dist Some by (rule elected_not_demoted)
        from demoteExtras_closed [OF nd lp]
        have r1: "rows t1 = map (mergedRow now ?D (cid cp)) (rows s)" and n1: "nextId t1 = nextId s"
          by simp_all
        have u1: "uniqueIds t1" using u unfolding uniqueIds_alt r1 n1 map_cid_mergedRow .
        have cpn: "cid cp < nextId s"
          using elected_in_store(1) [OF Some] u by (simp add: uniqueIds_def)
        have l1: "linksOk t1" using lo r1 n1 cpn by (rule linksOk_merged)
        have step: "s1 = s \<or> s1 = snd (identifyTx now inp s)"
          using run unfolding identify_valid [OF valid]
          by (auto simp: transaction_def split: prod.splits sum.splits)
        show ?thesis
        proof (cases "createContact now t1 ?em ?ph (Some (cid cp)) Secondary")
          case (Inl e)
          then have "snd (identifyTx now inp s) = t1"
            unfolding identifyTx_match [OF dm Some lp] by simp
          with step u lo u1 l1 show ?thesis by auto
        next
          case (Inr ct)
          then obtain c t2
            where cr: "createContact now t1 ?em ?ph (Some (cid cp)) Secondary = Inr (c, t2)"
            by (cases ct) simp
          have u2: "uniqueIds t2" using cr u1 by (rule createContact_uniqueIds)
          have l2: "linksOk t2" using cr l1 by (rule linksOk_create) (simp_all add: n1 cpn)
          have "snd (identifyTx now inp s) = t1 \<or> snd (identifyTx now inp s) = t2"
            unfolding identifyTx_match [OF dm Some lp] using cr by simp
          with step u lo u1 l1 u2 l2 show ?thesis by auto
        qed
      qed
    qed
  qed
qed

text \<open>
  Claim C3. In a store with unique ids and well-formed links, let a request end with some
  outcome and store. Every repetition of the same request, at any later times, ends with
  the same outcome and leaves that store as it is, journal included: it writes nothing.
  The first call adds at most one row, and none when a row matching the exact input is
  already there. The exact-match query finds a row exactly when some non-deleted row
  equals the request in both fields (both given) or in the single given field. The store
  the first call leaves has unique ids and well-formed links again.
\<close>

theorem identify_idempotent:
  assumes "uniqueIds s" and "linksOk s" and "identify now s inp = (res, s1)"
  shows "identifyRepeat nows s1 inp = (replicate (length nows) res, s1)
         \<and> length (rows s1) \<le> length (rows s) + 1
         \<and> ((\<exists>c \<in> set (rows s). exactMatch (email_in inp) (phoneNumber_in inp) c)
              \<longrightarrow> length (rows s1) = length (rows s))
         \<and> (findExactMatch s (email_in inp) (phoneNumber_in inp) \<noteq> None
              \<longleftrightarrow> (\<exists>c \<in> set (rows s). exactMatch (email_in inp) (phoneNumber_in inp) c))
         \<and> uniqueIds s1 \<and> linksOk s1"
proof (intro conjI impI)
  have "identify n s1 inp = (res, s1)" for n using assms by (rule identify_again(1))
  then show "identifyRepeat nows s1 inp = (replicate (length nows) res, s1)"
    by (rule identifyRepeat_fixed)
  show "length (rows s1) \<le> length (rows s) + 1" using assms by (rule identify_again(2))
  show "findExactMatch s (email_in inp) (phoneNumber_in inp) \<noteq> None
      \<longleftrightarrow> (\<exists>c \<in> set (rows s). exactMatch (email_in inp) (phoneNumber_in inp) c)"
    by (rule findExactMatch_iff)
  show "uniqueIds s1" "linksOk s1" using identify_keeps_wellFormed [OF assms] by simp_all
  assume "\<exists>c \<in> set (rows s). exactMatch (email_in inp) (phoneNumber_in inp) c"
  with assms show "length (rows s1) = length (rows s)" by (rule identify_again(3))
qed

lemma mergeStore_identify:
  "identify 300 mergeStore \<lparr>email_in = Some ''e1'', phoneNumber_in = Some ''p2''\<rparr>
     = (Inr \<lparr>primaryContactId = 1, emails = [''e1'', ''e2'', ''e3''],
             phoneNumbers = [''p1'', ''p2''], secondaryContactIds = [2, 3, 4]\<rparr>,
        snd (identifyTx 300 \<lparr>email_in = Some ''e1'', phoneNumber_in = Some ''p2''\<rparr> mergeStore))"
  by (simp add: mergeStore_def eval_defs)

theorem identify_idempotent_witness:
  "uniqueIds mergeStore \<and> linksOk mergeStore
   \<and> identify 300 mergeStore \<lparr>email_in = Some ''e1'', phoneNumber_in = Some ''p2''\<rparr>
     = (Inr \<lparr>primaryContactId = 1, emails = [''e1'', ''e2'', ''e3''],
             phoneNumbers = [''p1'', ''p2''], secondaryContactIds = [2, 3, 4]\<rparr>,
        snd (identifyTx 300 \<lparr>email_in = Some ''e1'', phoneNumber_in = Some ''p2''\<rparr> mergeStore))
   \<and> identifyRepeat [400, 500]
        (snd (identifyTx 300 \<lparr>email_in = Some ''e1'', phoneNumber_in = Some ''p2''\<rparr> mergeStore))
        \<lparr>email_in = Some ''e1'', phoneNumber_in = Some ''p2''\<rparr>
     = ([Inr \<lparr>primaryContactId = 1, emails = [''e1'', ''e2'', ''e3''],
              phoneNumbers = [''p1'', ''p2''], secondaryContactIds = [2, 3, 4]\<rparr>,
         Inr \<lparr>primaryContactId = 1, emails = [''e1'', ''e2'', ''e3''],
              phoneNumbers = [''p1'', ''p2''], secondaryContactIds = [2, 3, 4]\<rparr>],
        snd (identifyTx 300 \<lparr>email_in = Some ''e1'', phoneNumber_in = Some ''p2''\<rparr> mergeStore))"
proof -
  have u: "uniqueIds mergeStore"
    by (simp add: uniqueIds_def mergeStore_def contact_def)
  have l: "linksOk mergeStore"
    by (simp add: linksOk_def mergeStore_def contact_def)
  from identify_idempotent [OF u l mergeStore_identify, of "[400, 500]"]
  show ?thesis using u l mergeStore_identify by simp
qed

end
